theory Spec2Isabelle
  imports Complex_Main "HOL-Library.Word" "HOL-Library.Signed_Division"
begin

text \<open>
  Water-quality firmware of the underwater drone (\<^verbatim>\<open>drone_sketch.ino\<close>, ESP32, Arduino
  framework): the sampler reads two analog channels and a one-wire temperature probe,
  converts and classifies the readings; the reporter sends the latest values with an
  HTTP GET.  The sketch is embedded function by function, under the names it uses.
\<close>

section \<open>Floating-point values of the ESP32 target\<close>

text \<open>
  The sketch computes with the C types \<^verbatim>\<open>float\<close> and \<^verbatim>\<open>double\<close>, which on the
  ESP32 are the IEEE-754 formats binary32 and binary64, every operation rounded once to
  the nearest representable value, ties to even.  A value is a NaN, an infinity, or a
  finite real number.  The two zeros are not told apart: they compare equal, and the
  sketch only divides by the nonzero constants \<^verbatim>\<open>V_REF\<close> and \<^verbatim>\<open>ADC_RESOLUTION\<close>.
\<close>

datatype fp = NaN | PInf | NInf | Fin real

text \<open>Number of binary digits of a natural number.\<close>

fun bitlen_nat :: "nat \<Rightarrow> nat" where
  "bitlen_nat n = (if n = 0 then 0 else Suc (bitlen_nat (n div 2)))"

declare bitlen_nat.simps [simp del]

text \<open>The binary exponent of a positive real: \<open>2 powi ilog2 x \<le> x < 2 powi (ilog2 x + 1)\<close>.\<close>

definition ilog2 :: "real \<Rightarrow> int" where
  "ilog2 x = (if 1 \<le> x then int (bitlen_nat (nat \<lfloor>x\<rfloor>)) - 1
              else - int (bitlen_nat (nat (\<lceil>1 / x\<rceil> - 1))))"

definition round_half_even :: "real \<Rightarrow> int" where
  "round_half_even x =
     (let f = \<lfloor>x\<rfloor>; d = x - of_int f
      in if d < 1/2 then f else if 1/2 < d then f + 1 else if even f then f else f + 1)"

text \<open>
  The unit in the last place of a format with \<open>p\<close> significand bits and least normal
  exponent \<open>emin\<close>; below \<open>2 powi emin\<close> the spacing is that of the subnormal numbers.
\<close>

definition ulp_of :: "nat \<Rightarrow> int \<Rightarrow> real \<Rightarrow> real" where
  "ulp_of p emin x = 2 powi (max emin (ilog2 \<bar>x\<bar>) - int p + 1)"

definition round_real :: "nat \<Rightarrow> int \<Rightarrow> real \<Rightarrow> real" where
  "round_real p emin x =
     (if x = 0 then 0
      else of_int (round_half_even (x / ulp_of p emin x)) * ulp_of p emin x)"

text \<open>Rounding overflows to an infinity when the rounded magnitude reaches \<open>2 powi (emax + 1)\<close>.\<close>

definition round_fp :: "nat \<Rightarrow> int \<Rightarrow> int \<Rightarrow> real \<Rightarrow> fp" where
  "round_fp p emin emax x =
     (let r = round_real p emin x
      in if 2 powi (emax + 1) \<le> r then PInf
         else if r \<le> - (2 powi (emax + 1)) then NInf
         else Fin r)"

definition rnd32 :: "real \<Rightarrow> fp" where
  "rnd32 = round_fp 24 (- 126) 127"

definition rnd64 :: "real \<Rightarrow> fp" where
  "rnd64 = round_fp 53 (- 1022) 1023"

text \<open>Arithmetic, parameterised by the rounding of the result type.\<close>

fun fp_neg :: "fp \<Rightarrow> fp" where
  "fp_neg NaN = NaN"
| "fp_neg PInf = NInf"
| "fp_neg NInf = PInf"
| "fp_neg (Fin a) = Fin (- a)"

fun fp_add :: "(real \<Rightarrow> fp) \<Rightarrow> fp \<Rightarrow> fp \<Rightarrow> fp" where
  "fp_add r (Fin a) (Fin b) = r (a + b)"
| "fp_add r NaN y = NaN"
| "fp_add r x NaN = NaN"
| "fp_add r PInf NInf = NaN"
| "fp_add r NInf PInf = NaN"
| "fp_add r PInf y = PInf"
| "fp_add r NInf y = NInf"
| "fp_add r (Fin a) y = y"

definition fp_sub :: "(real \<Rightarrow> fp) \<Rightarrow> fp \<Rightarrow> fp \<Rightarrow> fp" where
  "fp_sub r x y = fp_add r x (fp_neg y)"

text \<open>The infinity with the sign of \<open>a * b\<close>, for an infinite product or quotient.\<close>

definition inf_signed :: "bool \<Rightarrow> fp" where
  "inf_signed negative = (if negative then NInf else PInf)"

fun fp_mul :: "(real \<Rightarrow> fp) \<Rightarrow> fp \<Rightarrow> fp \<Rightarrow> fp" where
  "fp_mul r (Fin a) (Fin b) = r (a * b)"
| "fp_mul r NaN y = NaN"
| "fp_mul r x NaN = NaN"
| "fp_mul r PInf PInf = PInf"
| "fp_mul r PInf NInf = NInf"
| "fp_mul r NInf PInf = NInf"
| "fp_mul r NInf NInf = PInf"
| "fp_mul r PInf (Fin b) = (if b = 0 then NaN else inf_signed (b < 0))"
| "fp_mul r NInf (Fin b) = (if b = 0 then NaN else inf_signed (0 < b))"
| "fp_mul r (Fin a) PInf = (if a = 0 then NaN else inf_signed (a < 0))"
| "fp_mul r (Fin a) NInf = (if a = 0 then NaN else inf_signed (0 < a))"

fun fp_div :: "(real \<Rightarrow> fp) \<Rightarrow> fp \<Rightarrow> fp \<Rightarrow> fp" where
  "fp_div r (Fin a) (Fin b) =
     (if b = 0 then (if a = 0 then NaN else inf_signed (a < 0)) else r (a / b))"
| "fp_div r NaN y = NaN"
| "fp_div r x NaN = NaN"
| "fp_div r (Fin a) PInf = Fin 0"
| "fp_div r (Fin a) NInf = Fin 0"
| "fp_div r PInf (Fin b) = inf_signed (b < 0)"
| "fp_div r NInf (Fin b) = inf_signed (0 \<le> b)"
| "fp_div r x y = NaN"

text \<open>The comparisons of C: every comparison with a NaN is false.\<close>

fun flt :: "fp \<Rightarrow> fp \<Rightarrow> bool" where
  "flt (Fin a) (Fin b) = (a < b)"
| "flt NaN y = False"
| "flt x NaN = False"
| "flt x NInf = False"
| "flt PInf y = False"
| "flt NInf y = True"
| "flt (Fin a) PInf = True"

fun fle :: "fp \<Rightarrow> fp \<Rightarrow> bool" where
  "fle (Fin a) (Fin b) = (a \<le> b)"
| "fle NaN y = False"
| "fle x NaN = False"
| "fle NInf y = True"
| "fle x PInf = True"
| "fle PInf y = False"
| "fle (Fin a) NInf = False"

definition fgt :: "fp \<Rightarrow> fp \<Rightarrow> bool" where
  "fgt x y = flt y x"

fun feq :: "fp \<Rightarrow> fp \<Rightarrow> bool" where
  "feq (Fin a) (Fin b) = (a = b)"
| "feq PInf PInf = True"
| "feq NInf NInf = True"
| "feq x y = False"

text \<open>Conversions: a double literal, double to float, and a 32-bit int to float.\<close>

definition dlit :: "real \<Rightarrow> fp" where
  "dlit x = rnd64 x"

fun to_float :: "fp \<Rightarrow> fp" where
  "to_float (Fin a) = rnd32 a"
| "to_float x = x"

definition int_to_float :: "32 word \<Rightarrow> fp" where
  "int_to_float n = rnd32 (of_int (sint n))"


section \<open>Constants of the sketch\<close>

definition PH_SENSOR_PIN :: "32 word" where
  "PH_SENSOR_PIN = 34"

definition TURBIDITY_SENSOR_PIN :: "32 word" where
  "TURBIDITY_SENSOR_PIN = 35"

definition HOST_NAME :: string where
  "HOST_NAME = ''http://yoga.underwaterdrone.my.id/''"

definition PATH_NAME :: string where
  "PATH_NAME = ''/api.php''"

definition ADC_RESOLUTION :: "32 word" where
  "ADC_RESOLUTION = 4095"

text \<open>\<^verbatim>\<open>const float V_REF = 3.3;\<close> the double literal, converted to float.\<close>

definition V_REF :: fp where
  "V_REF = to_float (dlit (33 / 10))"

definition PH_OFFSET :: fp where
  "PH_OFFSET = to_float (dlit 0)"

text \<open>\<^verbatim>\<open>const float PH_SLOPE = 14.0 / V_REF;\<close> a double division, converted to float.\<close>

definition PH_SLOPE :: fp where
  "PH_SLOPE = to_float (fp_div rnd64 (dlit 14) V_REF)"

definition NTU_MAX :: fp where
  "NTU_MAX = to_float (dlit 1000)"

definition SENSOR_READ_INTERVAL :: "32 word" where
  "SENSOR_READ_INTERVAL = 1000"

definition DATA_SEND_INTERVAL :: "32 word" where
  "DATA_SEND_INTERVAL = 5000"

definition JUMLAH_SAMPLING :: "32 word" where
  "JUMLAH_SAMPLING = 10"

text \<open>
  Modelled from the spec: the macro \<^verbatim>\<open>DEVICE_DISCONNECTED_C\<close> belongs to the
  DallasTemperature library, which is not part of the sketch; it is the sentinel that
  indicates disconnection, and the sketch's comment on \<^verbatim>\<open>bacaSuhuDS18B20\<close> gives its
  value, -127.
\<close>

definition DEVICE_DISCONNECTED_C :: fp where
  "DEVICE_DISCONNECTED_C = int_to_float (- 127)"

text \<open>\<^verbatim>\<open>HTTP_CODE_OK\<close> of the HTTPClient library.\<close>

definition HTTP_CODE_OK :: int where
  "HTTP_CODE_OK = 200"

text \<open>The UTF-8 bytes of the symbols in the sketch's string literals.\<close>

definition utf8_warning :: string where
  "utf8_warning = [CHR 0xE2, CHR 0x9A, CHR 0xA0, CHR 0xEF, CHR 0xB8, CHR 0x8F]"

definition utf8_check :: string where
  "utf8_check = [CHR 0xE2, CHR 0x9C, CHR 0x85]"

definition utf8_siren :: string where
  "utf8_siren = [CHR 0xF0, CHR 0x9F, CHR 0x9A, CHR 0xA8]"

definition utf8_cross :: string where
  "utf8_cross = [CHR 0xE2, CHR 0x9D, CHR 0x8C]"

definition utf8_antenna :: string where
  "utf8_antenna = [CHR 0xF0, CHR 0x9F, CHR 0x93, CHR 0xA1]"

definition utf8_snow :: string where
  "utf8_snow = [CHR 0xE2, CHR 0x9D, CHR 0x84, CHR 0xEF, CHR 0xB8, CHR 0x8F]"

section \<open>Conversion and classification\<close>

text \<open>\<^verbatim>\<open>return (float)nilaiADC * V_REF / (float)ADC_RESOLUTION;\<close>\<close>

definition adcKeVoltage :: "32 word \<Rightarrow> fp" where
  "adcKeVoltage nilaiADC =
     fp_div rnd32 (fp_mul rnd32 (int_to_float nilaiADC) V_REF) (int_to_float ADC_RESOLUTION)"

definition konversiKePH :: "fp \<Rightarrow> fp" where
  "konversiKePH tegangan =
     (let ph = fp_add rnd32 (fp_mul rnd32 tegangan PH_SLOPE) PH_OFFSET;
          ph = (if flt ph (dlit 0) then to_float (dlit 0) else ph);
          ph = (if fgt ph (dlit 14) then to_float (dlit 14) else ph)
      in ph)"

text \<open>
  \<^verbatim>\<open>float ntu = NTU_MAX * (1.0 - (tegangan / V_REF));\<close> the quotient is a float, the
  difference and the product are doubles, and the assignment converts to float.
\<close>

definition konversiKeNTU :: "fp \<Rightarrow> fp" where
  "konversiKeNTU tegangan =
     (let ntu = to_float (fp_mul rnd64 NTU_MAX (fp_sub rnd64 (dlit 1) (fp_div rnd32 tegangan V_REF)));
          ntu = (if flt ntu (dlit 0) then to_float (dlit 0) else ntu);
          ntu = (if fgt ntu (dlit 1000) then to_float (dlit 1000) else ntu)
      in ntu)"

definition kategoriPH :: "fp \<Rightarrow> string" where
  "kategoriPH ph =
     (if flt ph (dlit 4) then ''Sangat Asam '' @ utf8_warning
      else if flt ph (dlit (13 / 2)) then ''Asam''
      else if fle ph (dlit (17 / 2)) then ''Normal '' @ utf8_check
      else if fle ph (dlit 11) then ''Basa''
      else ''Sangat Basa '' @ utf8_warning)"

definition kategoriTurbidity :: "fp \<Rightarrow> string" where
  "kategoriTurbidity ntu =
     (if flt ntu (dlit 5) then ''Jernih '' @ utf8_check
      else if flt ntu (dlit 50) then ''Sedikit Keruh''
      else if flt ntu (dlit 200) then ''Keruh''
      else if flt ntu (dlit 500) then ''Sangat Keruh '' @ utf8_warning
      else ''Ekstrem Keruh '' @ utf8_siren)"

definition kategoriSuhu :: "fp \<Rightarrow> string" where
  "kategoriSuhu suhu =
     (if flt suhu (dlit 0) then ''Beku '' @ utf8_snow
      else if flt suhu (dlit 15) then ''Dingin''
      else if flt suhu (dlit 25) then ''Sejuk '' @ utf8_check
      else if flt suhu (dlit 30) then ''Hangat '' @ utf8_check
      else if flt suhu (dlit 40) then ''Panas''
      else ''Sangat Panas '' @ utf8_warning)"

section \<open>The device: globals of the sketch and its peripherals\<close>

datatype wl_status =
    WL_NO_SHIELD | WL_IDLE_STATUS | WL_NO_SSID_AVAIL | WL_SCAN_COMPLETED
  | WL_CONNECTED | WL_CONNECT_FAILED | WL_CONNECTION_LOST | WL_DISCONNECTED

datatype http_request = HTTP_GET string

text \<open>
  What the sketch writes to the serial console: a line, a \<^verbatim>\<open>printf\<close> with its format
  and its integer argument (\<open>Printf_error\<close> prints the library's text for the code), and the
  table of \<^verbatim>\<open>tampilkanDataSerial\<close>, recorded with the ten values it shows.
\<close>

datatype serial_event =
    Println string
  | Printf_int string int
  | Printf_error string int
  | Dashboard "32 word" fp fp string "32 word" fp fp string fp string

text \<open>
  The globals keep the names of the sketch.  The peripherals are the inputs the
  environment supplies (the sample each \<^verbatim>\<open>analogRead\<close> of a pin returns, the temperature
  each probe request returns, the WiFi status, the code and body each GET returns) and
  the traces the sketch leaves (reads made, milliseconds delayed, requests, console).
\<close>

record state =
  lastSensorRead :: "32 word"
  lastDataSend :: "32 word"
  nilaiPH :: fp
  nilaiTurbidity :: fp
  nilaiSuhu :: fp
  teganganPH :: fp
  teganganTurbidity :: fp
  rawPH :: "32 word"
  rawTurbidity :: "32 word"
  adc_input :: "8 word \<Rightarrow> nat \<Rightarrow> 16 word"
  adc_reads :: "8 word \<Rightarrow> nat"
  delayed_ms :: nat
  temp_input :: "nat \<Rightarrow> fp"
  temp_reads :: nat
  wifi_status :: wl_status
  http_input :: "nat \<Rightarrow> int \<times> string"
  http_log :: "http_request list"
  serial_log :: "serial_event list"

text \<open>
  \<^verbatim>\<open>uint16_t analogRead(uint8_t pin)\<close> of the ESP32 Arduino core: the next sample of the
  pin.
\<close>

definition analogRead :: "8 word \<Rightarrow> state \<Rightarrow> 16 word \<times> state" where
  "analogRead pin s =
     (adc_input s pin (adc_reads s pin),
      s\<lparr>adc_reads := (adc_reads s)(pin := Suc (adc_reads s pin))\<rparr>)"

definition delay :: "nat \<Rightarrow> state \<Rightarrow> state" where
  "delay ms s = s\<lparr>delayed_ms := delayed_ms s + ms\<rparr>"

definition println :: "string \<Rightarrow> state \<Rightarrow> state" where
  "println line s = s\<lparr>serial_log := serial_log s @ [Println line]\<rparr>"

text \<open>The division of C on 32-bit signed integers, truncating towards zero.\<close>

definition c_sdiv :: "32 word \<Rightarrow> 32 word \<Rightarrow> 32 word" where
  "c_sdiv a b = word_of_int (sint a sdiv sint b)"

text \<open>
  The loop of \<^verbatim>\<open>bacaADCRataRata\<close>, from counter \<open>i\<close> and accumulator \<open>tot\<close>
  (\<^verbatim>\<open>long total\<close>, 32 bits on the ESP32); the sample is zero-extended before it is added.
\<close>

function baca_loop :: "32 word \<Rightarrow> 32 word \<Rightarrow> 32 word \<Rightarrow> state \<Rightarrow> 32 word \<times> state" where
  "baca_loop pin i tot s =
     (if i <s JUMLAH_SAMPLING
      then baca_loop pin (i + 1)
             (tot + ucast (fst (analogRead (ucast pin) s)))
             (delay 2 (snd (analogRead (ucast pin) s)))
      else (tot, s))"
  by pat_completeness auto
termination
proof (relation "measure (\<lambda>(pin, i, tot, s). nat (10 - sint i))")
  fix pin i tot :: "32 word" and s :: state
  assume "i <s JUMLAH_SAMPLING"
  then have lt: "sint i < 10"
    by (simp add: word_sless_alt JUMLAH_SAMPLING_def)
  have ge: "- (2 ^ 31) \<le> sint i" using sint_ge[of i] by simp
  have "sint (i + 1) = sint i + 1"
    using lt ge by (simp add: sint_word_ariths signed_take_bit_int_eq_self)
  then show "((pin, i + 1, tot + ucast (fst (analogRead (ucast pin) s)),
               delay 2 (snd (analogRead (ucast pin) s))), pin, i, tot, s)
             \<in> measure (\<lambda>(pin, i, tot, s). nat (10 - sint i))"
    using lt by simp
qed simp

definition bacaADCRataRata :: "32 word \<Rightarrow> state \<Rightarrow> 32 word \<times> state" where
  "bacaADCRataRata pin s =
     (let (tot, s') = baca_loop pin 0 0 s
      in (c_sdiv tot JUMLAH_SAMPLING, s'))"

text \<open>\<^verbatim>\<open>requestTemperatures\<close> and \<^verbatim>\<open>getTempCByIndex(0)\<close>: the next reading of the probe.\<close>

definition bacaSuhuDS18B20 :: "state \<Rightarrow> fp \<times> state" where
  "bacaSuhuDS18B20 s = (temp_input s (temp_reads s), s\<lparr>temp_reads := Suc (temp_reads s)\<rparr>)"

text \<open>The table of \<^verbatim>\<open>tampilkanDataSerial\<close>: the seven globals and their three categories.\<close>

definition dashboard_of :: "state \<Rightarrow> serial_event" where
  "dashboard_of s =
     Dashboard (rawPH s) (teganganPH s) (nilaiPH s) (kategoriPH (nilaiPH s))
       (rawTurbidity s) (teganganTurbidity s) (nilaiTurbidity s)
       (kategoriTurbidity (nilaiTurbidity s))
       (nilaiSuhu s) (kategoriSuhu (nilaiSuhu s))"

definition tampilkanDataSerial :: "state \<Rightarrow> state" where
  "tampilkanDataSerial s = s\<lparr>serial_log := serial_log s @ [dashboard_of s]\<rparr>"

text \<open>
  \<^verbatim>\<open>kirimDataKeServer\<close>.  The constructor \<^verbatim>\<open>String(value, decimalPlaces)\<close> of the Arduino
  core is the parameter \<open>fmt\<close>; \<^verbatim>\<open>String(100.0)\<close> uses its default of two places.  The
  GET is answered by the next entry of \<open>http_input\<close>.
\<close>

definition kirimDataKeServer :: "(fp \<Rightarrow> nat \<Rightarrow> string) \<Rightarrow> state \<Rightarrow> state" where
  "kirimDataKeServer fmt s =
     (if wifi_status s = WL_CONNECTED
      then
        (let queryString = ''?kualitas_air='' @ fmt (nilaiPH s) 2
                         @ ''&tahan='' @ fmt (nilaiTurbidity s) 1
                         @ ''&udara='' @ fmt (nilaiSuhu s) 2
                         @ ''&daya_listrik='' @ fmt (dlit 100) 2;
             serverPath = HOST_NAME @ PATH_NAME @ queryString;
             s1 = println (''   URL: '' @ serverPath)
                    (println (utf8_antenna @ '' Mengirim data ke server...'')
                       (println [] s));
             httpCode = fst (http_input s1 (length (http_log s1)));
             payload = snd (http_input s1 (length (http_log s1)));
             s2 = s1\<lparr>http_log := http_log s1 @ [HTTP_GET serverPath]\<rparr>
         in if 0 < httpCode
            then (if httpCode = HTTP_CODE_OK
                  then println (''   '' @ utf8_check @ '' Berhasil! Response: '' @ payload) s2
                  else s2\<lparr>serial_log := serial_log s2 @
                          [Printf_int (''   '' @ utf8_warning @ '' HTTP Code: %d\<newline>'') httpCode]\<rparr>)
            else s2\<lparr>serial_log := serial_log s2 @
                    [Printf_error (''   '' @ utf8_cross @ '' Gagal! Error: %s\<newline>'') httpCode]\<rparr>)
      else println (utf8_cross @ '' WiFi terputus! Tidak bisa mengirim data.'') s)"

text \<open>
  The body of the first \<^verbatim>\<open>if\<close> of \<^verbatim>\<open>loop\<close>, after the timestamp is stored, in the
  four parts its comments number: the acidity channel, the turbidity channel, the
  temperature probe with its sentinel check, and the display.
\<close>

definition baca_ph :: "state \<Rightarrow> state" where
  "baca_ph s0 =
     (let (r, s1) = bacaADCRataRata PH_SENSOR_PIN s0;
          s2 = s1\<lparr>rawPH := r\<rparr>;
          s3 = s2\<lparr>teganganPH := adcKeVoltage (rawPH s2)\<rparr>
      in s3\<lparr>nilaiPH := konversiKePH (teganganPH s3)\<rparr>)"

definition baca_turbidity :: "state \<Rightarrow> state" where
  "baca_turbidity s0 =
     (let (r, s1) = bacaADCRataRata TURBIDITY_SENSOR_PIN s0;
          s2 = s1\<lparr>rawTurbidity := r\<rparr>;
          s3 = s2\<lparr>teganganTurbidity := adcKeVoltage (rawTurbidity s2)\<rparr>
      in s3\<lparr>nilaiTurbidity := konversiKeNTU (teganganTurbidity s3)\<rparr>)"

definition baca_suhu :: "state \<Rightarrow> state" where
  "baca_suhu s0 =
     (let (suhu, s1) = bacaSuhuDS18B20 s0;
          s2 = s1\<lparr>nilaiSuhu := suhu\<rparr>
      in if feq (nilaiSuhu s2) DEVICE_DISCONNECTED_C
         then (println (utf8_warning @ '' Sensor DS18B20 tidak terdeteksi!'') s2)
                \<lparr>nilaiSuhu := to_float (dlit 0)\<rparr>
         else s2)"

definition baca_sensor :: "state \<Rightarrow> state" where
  "baca_sensor s = tampilkanDataSerial (baca_suhu (baca_turbidity (baca_ph s)))"

text \<open>One pass of \<^verbatim>\<open>loop\<close>; \<open>currentMillis\<close> is what \<^verbatim>\<open>millis()\<close> returns.\<close>

definition loop :: "(fp \<Rightarrow> nat \<Rightarrow> string) \<Rightarrow> 32 word \<Rightarrow> state \<Rightarrow> state" where
  "loop fmt currentMillis s =
     (let s1 = (if SENSOR_READ_INTERVAL \<le> currentMillis - lastSensorRead s
                then baca_sensor (s\<lparr>lastSensorRead := currentMillis\<rparr>)
                else s)
      in if DATA_SEND_INTERVAL \<le> currentMillis - lastDataSend s1
         then kirimDataKeServer fmt (s1\<lparr>lastDataSend := currentMillis\<rparr>)
         else s1)"

section \<open>Observations used to state the properties\<close>

text \<open>The \<open>k\<close>-th sample that the pin delivers from now on, as an integer.\<close>

definition upcoming_sample :: "32 word \<Rightarrow> state \<Rightarrow> nat \<Rightarrow> int" where
  "upcoming_sample pin s k = uint (adc_input s (ucast pin) (adc_reads s (ucast pin) + k))"

text \<open>The seven latest-reading variables of the sketch.\<close>

definition readings :: "state \<Rightarrow> 32 word \<times> 32 word \<times> fp \<times> fp \<times> fp \<times> fp \<times> fp" where
  "readings s =
     (rawPH s, rawTurbidity s, teganganPH s, teganganTurbidity s,
      nilaiPH s, nilaiTurbidity s, nilaiSuhu s)"

text \<open>
  The globals as the sketch initialises them, before anything was read, sent or
  printed, for given inputs of the environment.
\<close>

definition initial_state ::
  "(8 word \<Rightarrow> nat \<Rightarrow> 16 word) \<Rightarrow> (nat \<Rightarrow> fp) \<Rightarrow> wl_status \<Rightarrow> (nat \<Rightarrow> int \<times> string) \<Rightarrow> state" where
  "initial_state adc temp wifi http =
     \<lparr>lastSensorRead = 0, lastDataSend = 0,
      nilaiPH = to_float (dlit 0), nilaiTurbidity = to_float (dlit 0),
      nilaiSuhu = to_float (dlit 0), teganganPH = to_float (dlit 0),
      teganganTurbidity = to_float (dlit 0), rawPH = 0, rawTurbidity = 0,
      adc_input = adc, adc_reads = (\<lambda>pin. 0), delayed_ms = 0,
      temp_input = temp, temp_reads = 0, wifi_status = wifi,
      http_input = http, http_log = [], serial_log = []\<rparr>"

text \<open>
  Reading a URL back: the text after the first question mark, split at the ampersands,
  each part split at its first equals sign.
\<close>

fun split_at :: "char \<Rightarrow> string \<Rightarrow> string list" where
  "split_at c [] = [[]]"
| "split_at c (x # xs) =
     (if x = c then [] # split_at c xs
      else (case split_at c xs of [] \<Rightarrow> [[x]] | w # ws \<Rightarrow> (x # w) # ws))"

definition key_value :: "string \<Rightarrow> string \<times> string" where
  "key_value kv =
     (takeWhile (\<lambda>c. c \<noteq> CHR ''='') kv, drop 1 (dropWhile (\<lambda>c. c \<noteq> CHR ''='') kv))"

definition query_pairs :: "string \<Rightarrow> (string \<times> string) list" where
  "query_pairs url =
     map key_value (split_at (CHR ''&'') (drop 1 (dropWhile (\<lambda>c. c \<noteq> CHR ''?'') url)))"

section \<open>Properties of rounding\<close>

lemma bitlen_nat_pos: "0 < n \<Longrightarrow> 0 < bitlen_nat n"
  by (subst bitlen_nat.simps) simp

lemma bitlen_nat_bounds:
  "0 < n \<Longrightarrow> 2 ^ (bitlen_nat n - 1) \<le> n \<and> n < 2 ^ bitlen_nat n"
proof (induction n rule: bitlen_nat.induct)
  case (1 n)
  show ?case
  proof (cases "n div 2 = 0")
    case True
    with "1.prems" have "n = 1" by (simp add: div_eq_0_iff)
    then show ?thesis by (simp add: bitlen_nat.simps)
  next
    case False
    with "1.IH" "1.prems"
    have ih: "2 ^ (bitlen_nat (n div 2) - 1) \<le> n div 2" "n div 2 < 2 ^ bitlen_nat (n div 2)"
      by auto
    have pos: "0 < bitlen_nat (n div 2)" using False by (simp add: bitlen_nat_pos)
    have eq: "bitlen_nat n = Suc (bitlen_nat (n div 2))"
      using "1.prems" by (subst bitlen_nat.simps) simp
    have "2 ^ (bitlen_nat n - 1) = 2 * 2 ^ (bitlen_nat (n div 2) - 1)"
      using pos eq by (cases "bitlen_nat (n div 2)") simp_all
    also have "\<dots> \<le> 2 * (n div 2)" using ih(1) by simp
    also have "\<dots> \<le> n" by simp
    finally have lo: "2 ^ (bitlen_nat n - 1) \<le> n" .
    have "n < 2 * (n div 2) + 2" by presburger
    also have "\<dots> \<le> 2 * 2 ^ bitlen_nat (n div 2)" using ih(2) by simp
    finally have "n < 2 ^ bitlen_nat n" using eq by simp
    with lo show ?thesis by simp
  qed
qed

lemma real_pow2_le: "2 ^ k \<le> n \<Longrightarrow> (2::real) ^ k \<le> real n"
  by (metis of_nat_le_iff of_nat_numeral of_nat_power)

lemma real_le_pow2: "n \<le> 2 ^ k \<Longrightarrow> real n \<le> (2::real) ^ k"
  by (metis of_nat_le_iff of_nat_numeral of_nat_power)

lemma ilog2_bounds:
  assumes "0 < x"
  shows "2 powi (ilog2 x) \<le> x" and "x < 2 powi (ilog2 x + 1)"
proof -
  have "2 powi (ilog2 x) \<le> x \<and> x < 2 powi (ilog2 x + 1)"
  proof (cases "1 \<le> x")
    case True
    define n where "n = nat \<lfloor>x\<rfloor>"
    have npos: "0 < n" using True by (simp add: n_def)
    have nx: "real n \<le> x" "x < real n + 1"
      using True by (simp_all add: n_def)
    from bitlen_nat_bounds[OF npos]
    have b: "2 ^ (bitlen_nat n - 1) \<le> n" "n < 2 ^ bitlen_nat n" by auto
    have kpos: "0 < bitlen_nat n" using npos by (rule bitlen_nat_pos)
    have e: "ilog2 x = int (bitlen_nat n - 1)"
      using True kpos by (simp add: ilog2_def n_def)
    have e1: "ilog2 x + 1 = int (bitlen_nat n)"
      using e kpos by simp
    have p1: "2 powi (ilog2 x) = (2::real) ^ (bitlen_nat n - 1)" by (simp add: e)
    have p2: "2 powi (ilog2 x + 1) = (2::real) ^ bitlen_nat n"
      by (simp only: e1 power_int_of_nat)
    have "(2::real) ^ (bitlen_nat n - 1) \<le> real n" using b(1) by (rule real_pow2_le)
    then have lo: "2 powi (ilog2 x) \<le> x" using nx(1) p1 by linarith
    have "n + 1 \<le> 2 ^ bitlen_nat n" using b(2) by simp
    then have "real (n + 1) \<le> (2::real) ^ bitlen_nat n" by (rule real_le_pow2)
    then have "real n + 1 \<le> (2::real) ^ bitlen_nat n" by simp
    then have "x < 2 powi (ilog2 x + 1)" using nx(2) p2 by linarith
    with lo show ?thesis by simp
  next
    case False
    then have x1: "x < 1" by simp
    define m where "m = \<lceil>1 / x\<rceil>"
    define n where "n = nat (m - 1)"
    have inv: "1 < 1 / x" using assms x1 by simp
    have m2: "2 \<le> m" using inv unfolding m_def by linarith
    have mx: "1 / x \<le> of_int m" "of_int m - 1 < 1 / x"
      unfolding m_def by linarith+
    have npos: "0 < n" using m2 by (simp add: n_def)
    have nm: "real n = of_int m - 1" using m2 by (simp add: n_def)
    from bitlen_nat_bounds[OF npos]
    have b: "2 ^ (bitlen_nat n - 1) \<le> n" "n < 2 ^ bitlen_nat n" by auto
    have kpos: "0 < bitlen_nat n" using npos by (rule bitlen_nat_pos)
    have e: "ilog2 x = - int (bitlen_nat n)"
      using False by (simp add: ilog2_def n_def m_def)
    have "n + 1 \<le> 2 ^ bitlen_nat n" using b(2) by simp
    then have "real (n + 1) \<le> (2::real) ^ bitlen_nat n" by (rule real_le_pow2)
    then have "real n + 1 \<le> (2::real) ^ bitlen_nat n" by simp
    then have "1 / x \<le> 2 ^ bitlen_nat n" using mx(1) nm by linarith
    then have "1 / 2 ^ bitlen_nat n \<le> x"
      using assms by (simp add: field_simps)
    moreover have "2 powi (ilog2 x) = 1 / (2::real) ^ bitlen_nat n"
      by (simp only: e power_int_minus_divide power_int_of_nat)
    ultimately have lo: "2 powi (ilog2 x) \<le> x" by simp
    have "(2::real) ^ (bitlen_nat n - 1) \<le> real n" using b(1) by (rule real_pow2_le)
    then have "2 ^ (bitlen_nat n - 1) < 1 / x" using mx(2) nm by linarith
    then have "x < 1 / 2 ^ (bitlen_nat n - 1)"
      using assms by (simp add: field_simps)
    moreover have "ilog2 x + 1 = - int (bitlen_nat n - 1)" using e kpos by simp
    then have "2 powi (ilog2 x + 1) = 1 / (2::real) ^ (bitlen_nat n - 1)"
      by (simp only: power_int_minus_divide power_int_of_nat)
    ultimately have "x < 2 powi (ilog2 x + 1)" by simp
    with lo show ?thesis by simp
  qed
  then show "2 powi (ilog2 x) \<le> x" and "x < 2 powi (ilog2 x + 1)" by simp_all
qed

lemma pow2_pos: "0 < (2::real) powi e"
  by simp

lemma ilog2_unique:
  assumes "2 powi e \<le> x" "x < 2 powi (e + 1)"
  shows "ilog2 x = e"
proof -
  have xpos: "0 < x" using assms(1) pow2_pos[of e] by linarith
  note b = ilog2_bounds[OF xpos]
  have "\<not> ilog2 x < e"
  proof
    assume "ilog2 x < e"
    then have "(2::real) powi (ilog2 x + 1) \<le> 2 powi e"
      by (intro power_int_increasing) simp_all
    with b(2) assms(1) show False by simp
  qed
  moreover have "\<not> e < ilog2 x"
  proof
    assume "e < ilog2 x"
    then have "(2::real) powi (e + 1) \<le> 2 powi (ilog2 x)"
      by (intro power_int_increasing) simp_all
    with b(1) assms(2) show False by simp
  qed
  ultimately show ?thesis by simp
qed

lemma ilog2_mono:
  assumes "0 < x" "x \<le> y"
  shows "ilog2 x \<le> ilog2 y"
proof (rule ccontr)
  assume "\<not> ilog2 x \<le> ilog2 y"
  then have "(2::real) powi (ilog2 y + 1) \<le> 2 powi (ilog2 x)"
    by (intro power_int_increasing) simp_all
  moreover have "0 < y" using assms by simp
  ultimately show False
    using ilog2_bounds(1)[OF assms(1)] ilog2_bounds(2)[OF \<open>0 < y\<close>] assms(2) by simp
qed

lemma ilog2_less:
  assumes "0 < x" "x < 2 powi k"
  shows "ilog2 x < k"
proof (rule ccontr)
  assume "\<not> ilog2 x < k"
  then have "(2::real) powi k \<le> 2 powi (ilog2 x)"
    by (intro power_int_increasing) simp_all
  with ilog2_bounds(1)[OF assms(1)] assms(2) show False by simp
qed

lemma round_half_even_near: "\<bar>x - of_int (round_half_even x)\<bar> \<le> 1/2"
  unfolding round_half_even_def Let_def by (auto; linarith)

lemma round_half_even_unique:
  assumes "\<bar>x - of_int m\<bar> < 1/2"
  shows "round_half_even x = m"
proof -
  have "\<bar>of_int (round_half_even x) - (of_int m :: real)\<bar> < 1"
    using round_half_even_near[of x] assms by linarith
  then have "\<bar>round_half_even x - m\<bar> < 1"
    by (metis of_int_1 of_int_abs of_int_diff of_int_less_iff)
  then show ?thesis by simp
qed

lemma round_half_even_of_int [simp]: "round_half_even (of_int k) = k"
  by (rule round_half_even_unique) simp

lemma round_half_even_mono:
  assumes "x \<le> y"
  shows "round_half_even x \<le> round_half_even y"
proof (rule ccontr)
  assume neg: "\<not> round_half_even x \<le> round_half_even y"
  then have "round_half_even y + 1 \<le> round_half_even x" by simp
  then have "(of_int (round_half_even y) :: real) + 1 \<le> of_int (round_half_even x)"
    by (metis of_int_1 of_int_add of_int_le_iff)
  with round_half_even_near[of x] round_half_even_near[of y] assms
  have "x = y" by linarith
  with neg show False by simp
qed

lemma ulp_of_pos [simp]: "0 < ulp_of p emin x"
  by (simp add: ulp_of_def)

lemma ulp_of_nonneg [simp]: "0 \<le> ulp_of p emin x"
  by (simp add: ulp_of_def)

lemma round_real_0 [simp]: "round_real p emin 0 = 0"
  by (simp add: round_real_def)

lemma round_real_nonneg:
  assumes "0 \<le> x"
  shows "0 \<le> round_real p emin x"
proof (cases "x = 0")
  case False
  have "0 \<le> x / ulp_of p emin x" using assms by simp
  then have "round_half_even 0 \<le> round_half_even (x / ulp_of p emin x)"
    by (rule round_half_even_mono)
  then have "0 \<le> round_half_even (x / ulp_of p emin x)"
    using round_half_even_of_int[of 0] by simp
  then show ?thesis using False by (simp add: round_real_def)
qed simp

text \<open>A positive number rounds within the closed binade it lies in.\<close>

lemma round_real_binade:
  fixes emin :: int and p :: nat and x :: real
  assumes p: "0 < p" and x: "0 < x"
  defines "e \<equiv> max emin (ilog2 x)"
  shows "x < 2 powi (e + 1)"
    and "round_real p emin x \<le> 2 powi (e + 1)"
    and "emin < ilog2 x \<Longrightarrow> 2 powi e \<le> round_real p emin x"
proof -
  define u :: real where "u = 2 powi (e - int p + 1)"
  have u: "ulp_of p emin x = u" using x by (simp add: ulp_of_def u_def e_def)
  have upos: "0 < u" by (simp add: u_def)
  have rr: "round_real p emin x = of_int (round_half_even (x / u)) * u"
    using x u by (simp add: round_real_def)
  have "x < 2 powi (ilog2 x + 1)" using ilog2_bounds(2)[OF x] .
  also have "\<dots> \<le> 2 powi (e + 1)"
    by (intro power_int_increasing) (simp_all add: e_def)
  finally show xlt: "x < 2 powi (e + 1)" .
  have hi: "(2::real) powi (e + 1) = of_int (2 ^ p) * u"
  proof -
    have "(2::real) powi (e + 1) = 2 powi (int p + (e - int p + 1))" by simp
    also have "\<dots> = 2 powi (int p) * 2 powi (e - int p + 1)"
      by (subst power_int_add) simp_all
    finally show ?thesis by (simp add: u_def)
  qed
  have lo: "(2::real) powi e = of_int (2 ^ (p - 1)) * u"
  proof -
    have "(2::real) powi e = 2 powi (int (p - 1) + (e - int p + 1))"
      using p by (simp add: of_nat_diff)
    also have "\<dots> = 2 powi (int (p - 1)) * 2 powi (e - int p + 1)"
      by (subst power_int_add) simp_all
    finally show ?thesis by (simp add: u_def)
  qed
  have "x / u \<le> of_int (2 ^ p)" using xlt hi upos by (simp add: field_simps)
  then have "round_half_even (x / u) \<le> round_half_even (of_int (2 ^ p))"
    by (rule round_half_even_mono)
  then have "round_half_even (x / u) \<le> 2 ^ p" by (simp only: round_half_even_of_int)
  then have "(of_int (round_half_even (x / u)) :: real) \<le> of_int (2 ^ p)"
    by (simp only: of_int_le_iff)
  then show "round_real p emin x \<le> 2 powi (e + 1)"
    using upos by (simp only: rr hi mult_le_cancel_right_pos)
  show "2 powi e \<le> round_real p emin x" if "emin < ilog2 x"
  proof -
    have "e = ilog2 x" using that by (simp add: e_def)
    then have "2 powi e \<le> x" using ilog2_bounds(1)[OF x] by simp
    then have "of_int (2 ^ (p - 1)) \<le> x / u" using lo upos by (simp add: field_simps)
    then have "round_half_even (of_int (2 ^ (p - 1))) \<le> round_half_even (x / u)"
      by (rule round_half_even_mono)
    then have "2 ^ (p - 1) \<le> round_half_even (x / u)"
      by (simp only: round_half_even_of_int)
    then have "(of_int (2 ^ (p - 1)) :: real) \<le> of_int (round_half_even (x / u))"
      by (simp only: of_int_le_iff)
    then show ?thesis using upos by (simp only: rr lo mult_le_cancel_right_pos)
  qed
qed

text \<open>Rounding to nearest is monotone (shown here on the nonnegative numbers).\<close>

lemma round_real_mono_nonneg:
  assumes p: "0 < p" and "0 \<le> x" "x \<le> y"
  shows "round_real p emin x \<le> round_real p emin y"
proof (cases "x = 0")
  case True
  then show ?thesis using round_real_nonneg[of y p emin] assms by simp
next
  case False
  then have x: "0 < x" and y: "0 < y" using assms by simp_all
  define ex where "ex = max emin (ilog2 x)"
  define ey where "ey = max emin (ilog2 y)"
  have le: "ex \<le> ey" using ilog2_mono[OF x assms(3)] by (simp add: ex_def ey_def)
  show ?thesis
  proof (cases "ex = ey")
    case True
    define u :: real where "u = 2 powi (ex - int p + 1)"
    have ux: "ulp_of p emin x = u" using x by (simp add: ulp_of_def ex_def u_def)
    have uy: "ulp_of p emin y = u" using y True by (simp add: ulp_of_def ey_def u_def)
    have upos: "0 < u" by (simp add: u_def)
    have "x / u \<le> y / u" using assms(3) upos by (simp add: divide_right_mono)
    then have "round_half_even (x / u) \<le> round_half_even (y / u)"
      by (rule round_half_even_mono)
    then have "(of_int (round_half_even (x / u)) :: real) * u
               \<le> of_int (round_half_even (y / u)) * u"
      using upos by simp
    then show ?thesis using x y ux uy by (simp add: round_real_def)
  next
    case False
    then have lt: "ex < ey" using le by simp
    then have "emin < ilog2 y" unfolding ex_def ey_def by linarith
    from round_real_binade(3)[OF p y this]
    have "2 powi ey \<le> round_real p emin y" by (simp add: ey_def)
    moreover from round_real_binade(2)[OF p x]
    have "round_real p emin x \<le> 2 powi (ex + 1)" by (simp add: ex_def)
    moreover have "(2::real) powi (ex + 1) \<le> 2 powi ey"
      using lt by (intro power_int_increasing) simp_all
    ultimately show ?thesis by linarith
  qed
qed

text \<open>
  A rounding certificate: a number in the binade of exponent \<open>e\<close> whose scaled value is
  less than half a unit away from the integer \<open>m\<close> rounds to \<open>m\<close> units.
\<close>

lemma round_real_cert:
  assumes "emin \<le> e" "2 powi e \<le> \<bar>x\<bar>" "\<bar>x\<bar> < 2 powi (e + 1)"
    and "\<bar>x / 2 powi (e - int p + 1) - of_int m\<bar> < 1/2"
  shows "round_real p emin x = of_int m * 2 powi (e - int p + 1)"
proof -
  have "ilog2 \<bar>x\<bar> = e" using assms(2,3) by (rule ilog2_unique)
  then have u: "ulp_of p emin x = 2 powi (e - int p + 1)"
    using assms(1) by (simp add: ulp_of_def)
  have "x \<noteq> 0"
  proof
    assume "x = 0"
    then have "2 powi e \<le> (0::real)" using assms(2) by simp
    with pow2_pos[of e] show False by linarith
  qed
  moreover have "round_half_even (x / 2 powi (e - int p + 1)) = m"
    using assms(4) by (rule round_half_even_unique)
  ultimately show ?thesis by (simp add: round_real_def u)
qed

text \<open>A number with a significand of at most \<open>p\<close> bits is representable: rounding keeps it.\<close>

lemma round_real_exact:
  assumes x: "x = of_int m * 2 powi k" and m: "\<bar>m\<bar> < 2 ^ p" and k: "emin - int p + 1 \<le> k"
  shows "round_real p emin x = x"
proof (cases "x = 0")
  case False
  define j where "j = max emin (ilog2 \<bar>x\<bar>) - int p + 1"
  have xpos: "0 < \<bar>x\<bar>" using False by simp
  have "\<bar>x\<bar> = of_int \<bar>m\<bar> * 2 powi k" by (simp add: x abs_mult)
  also have "\<dots> < of_int (2 ^ p) * 2 powi k"
    using m by (intro mult_strict_right_mono) (simp_all only: of_int_less_iff pow2_pos)
  also have "\<dots> = 2 powi (int p + k)"
    by (subst power_int_add) simp_all
  finally have "ilog2 \<bar>x\<bar> < int p + k" using xpos by (intro ilog2_less)
  then have jk: "j \<le> k" using k by (simp add: j_def)
  have u: "ulp_of p emin x = 2 powi j" by (simp add: ulp_of_def j_def)
  have kk: "int (nat (k - j)) + j = k" using jk by simp
  have "(2::real) powi k = 2 powi (int (nat (k - j)) + j)" by (simp only: kk)
  also have "\<dots> = 2 powi (int (nat (k - j))) * 2 powi j"
    by (rule power_int_add) simp
  also have "\<dots> = 2 ^ nat (k - j) * 2 powi j"
    by (simp only: power_int_of_nat)
  finally have "x = of_int (m * 2 ^ nat (k - j)) * 2 powi j"
    by (simp add: x)
  then have "x / 2 powi j = of_int (m * 2 ^ nat (k - j))" by simp
  then have "round_half_even (x / 2 powi j) = m * 2 ^ nat (k - j)"
    by (simp only: round_half_even_of_int)
  then have "round_real p emin x = of_int (m * 2 ^ nat (k - j)) * 2 powi j"
    using False by (simp add: round_real_def u)
  with \<open>x = of_int (m * 2 ^ nat (k - j)) * 2 powi j\<close> show ?thesis by simp
qed simp

lemma round_fp_Fin:
  assumes "\<bar>round_real p emin x\<bar> < 2 powi (emax + 1)"
  shows "round_fp p emin emax x = Fin (round_real p emin x)"
  using assms by (auto simp: round_fp_def Let_def)

lemma round_fp_not_NaN [simp]: "round_fp p emin emax x \<noteq> NaN"
  by (simp add: round_fp_def Let_def)

section \<open>The two formats, the literals and the constants\<close>

lemma rnd32_not_NaN [simp]: "rnd32 x \<noteq> NaN"
  by (simp add: rnd32_def)

lemma rnd64_not_NaN [simp]: "rnd64 x \<noteq> NaN"
  by (simp add: rnd64_def)

lemma dlit_not_NaN [simp]: "dlit x \<noteq> NaN"
  by (simp add: dlit_def)

lemma rnd32_cert:
  assumes "- 126 \<le> e" "2 powi e \<le> \<bar>x\<bar>" "\<bar>x\<bar> < 2 powi (e + 1)"
    and "\<bar>x / 2 powi (e - 23) - of_int m\<bar> < 1/2"
    and "\<bar>of_int m * 2 powi (e - 23)\<bar> < (2::real) ^ 128"
  shows "rnd32 x = Fin (of_int m * 2 powi (e - 23))"
proof -
  have "round_real 24 (- 126) x = of_int m * 2 powi (e - int 24 + 1)"
    using assms(1-4) by (intro round_real_cert) simp_all
  then have r: "round_real 24 (- 126) x = of_int m * 2 powi (e - 23)" by simp
  show ?thesis unfolding rnd32_def using assms(5)
    by (subst round_fp_Fin) (simp_all add: r)
qed

lemma rnd64_cert:
  assumes "- 1022 \<le> e" "2 powi e \<le> \<bar>x\<bar>" "\<bar>x\<bar> < 2 powi (e + 1)"
    and "\<bar>x / 2 powi (e - 52) - of_int m\<bar> < 1/2"
    and "\<bar>of_int m * 2 powi (e - 52)\<bar> < (2::real) ^ 1024"
  shows "rnd64 x = Fin (of_int m * 2 powi (e - 52))"
proof -
  have "round_real 53 (- 1022) x = of_int m * 2 powi (e - int 53 + 1)"
    using assms(1-4) by (intro round_real_cert) simp_all
  then have r: "round_real 53 (- 1022) x = of_int m * 2 powi (e - 52)" by simp
  show ?thesis unfolding rnd64_def using assms(5)
    by (subst round_fp_Fin) (simp_all add: r)
qed

lemma rnd32_exact:
  assumes "x = of_int m * 2 powi k" "\<bar>m\<bar> < 2 ^ 24" "- 149 \<le> k" "\<bar>x\<bar> < 2 ^ 128"
  shows "rnd32 x = Fin x"
proof -
  have r: "round_real 24 (- 126) x = x"
    using assms(1-3) by (intro round_real_exact[where m = m and k = k]) simp_all
  show ?thesis unfolding rnd32_def using assms(4)
    by (subst round_fp_Fin) (simp_all add: r)
qed

lemma rnd64_exact:
  assumes "x = of_int m * 2 powi k" "\<bar>m\<bar> < 2 ^ 53" "- 1074 \<le> k" "\<bar>x\<bar> < 2 ^ 1024"
  shows "rnd64 x = Fin x"
proof -
  have r: "round_real 53 (- 1022) x = x"
    using assms(1-3) by (intro round_real_exact[where m = m and k = k]) simp_all
  show ?thesis unfolding rnd64_def using assms(4)
    by (subst round_fp_Fin) (simp_all add: r)
qed

text \<open>Integers below \<open>2 ^ 24\<close> are floats, and below \<open>2 ^ 53\<close> doubles.\<close>

lemma rnd32_of_int: "\<bar>n\<bar> < 2 ^ 24 \<Longrightarrow> rnd32 (of_int n) = Fin (of_int n)"
proof (rule rnd32_exact[where m = n and k = 0])
  assume a: "\<bar>n\<bar> < 2 ^ 24"
  then have "\<bar>n\<bar> < 2 ^ 128" by (rule less_trans) simp
  then have "(of_int \<bar>n\<bar> :: real) < of_int (2 ^ 128)" by (simp only: of_int_less_iff)
  then show "\<bar>of_int n :: real\<bar> < 2 ^ 128" by simp
qed simp_all

lemma rnd64_of_int: "\<bar>n\<bar> < 2 ^ 53 \<Longrightarrow> rnd64 (of_int n) = Fin (of_int n)"
proof (rule rnd64_exact[where m = n and k = 0])
  assume a: "\<bar>n\<bar> < 2 ^ 53"
  then have "\<bar>n\<bar> < 2 ^ 1024" by (rule less_trans) simp
  then have "(of_int \<bar>n\<bar> :: real) < of_int (2 ^ 1024)" by (simp only: of_int_less_iff)
  then show "\<bar>of_int n :: real\<bar> < 2 ^ 1024" by simp
qed simp_all

lemma dlit_0 [simp]: "dlit 0 = Fin 0"
  using rnd64_of_int[of 0] by (simp add: dlit_def)

lemma dlit_numeral [simp]:
  "numeral w < (2::int) ^ 53 \<Longrightarrow> dlit (numeral w) = Fin (numeral w)"
  using rnd64_of_int[of "numeral w"] by (simp add: dlit_def)

lemma dlit_1 [simp]: "dlit 1 = Fin 1"
  using rnd64_of_int[of 1] by (simp add: dlit_def)

lemma dlit_halves [simp]: "dlit (13 / 2) = Fin (13 / 2)" "dlit (17 / 2) = Fin (17 / 2)"
  unfolding dlit_def
  by (rule rnd64_exact[where m = 13 and k = "- 1"], simp_all)
     (rule rnd64_exact[where m = 17 and k = "- 1"], simp_all)

lemma rnd32_0 [simp]: "rnd32 0 = Fin 0"
  using rnd32_of_int[of 0] by simp

lemma rnd32_numeral [simp]:
  "numeral w < (2::int) ^ 24 \<Longrightarrow> rnd32 (numeral w) = Fin (numeral w)"
  using rnd32_of_int[of "numeral w"] by simp

lemma rnd32_1 [simp]: "rnd32 1 = Fin 1"
  using rnd32_of_int[of 1] by simp

lemma rnd64_1 [simp]: "rnd64 1 = Fin 1"
  using rnd64_of_int[of 1] by simp

lemma rnd64_0 [simp]: "rnd64 0 = Fin 0"
  using rnd64_of_int[of 0] by simp

lemma rnd64_numeral [simp]:
  "numeral w < (2::int) ^ 53 \<Longrightarrow> rnd64 (numeral w) = Fin (numeral w)"
  using rnd64_of_int[of "numeral w"] by simp

lemma dlit_33_10: "dlit (33 / 10) = Fin (3715469692580659 / 1125899906842624)"
  using rnd64_cert[of 1 "33 / 10" 7430939385161318] by (simp add: dlit_def)

lemma V_REF_val: "V_REF = Fin (13841203 / 4194304)"
  using rnd32_cert[of 1 "3715469692580659 / 1125899906842624" 13841203]
  by (simp add: V_REF_def dlit_33_10)

lemma PH_OFFSET_val [simp]: "PH_OFFSET = Fin 0"
  by (simp add: PH_OFFSET_def)

lemma NTU_MAX_val [simp]: "NTU_MAX = Fin 1000"
  by (simp add: NTU_MAX_def)

lemma PH_SLOPE_val: "PH_SLOPE = Fin (8897009 / 2097152)"
proof -
  have "fp_div rnd64 (dlit 14) V_REF = Fin (4776545128351563 / 1125899906842624)"
    using rnd64_cert[of 2 "14 / (13841203 / 4194304)" 4776545128351563]
    by (simp add: V_REF_val)
  moreover have "rnd32 (4776545128351563 / 1125899906842624) = Fin (8897009 / 2097152)"
    using rnd32_cert[of 2 "4776545128351563 / 1125899906842624" 8897009] by simp
  ultimately show ?thesis by (simp add: PH_SLOPE_def)
qed

lemma int_to_float_small:
  "\<bar>sint n\<bar> < 2 ^ 24 \<Longrightarrow> int_to_float n = Fin (of_int (sint n))"
  using rnd32_of_int[of "sint n"] by (simp add: int_to_float_def)

lemma ADC_RESOLUTION_float [simp]: "int_to_float ADC_RESOLUTION = Fin 4095"
  by (simp add: int_to_float_small ADC_RESOLUTION_def)

lemma DEVICE_DISCONNECTED_C_val [simp]: "DEVICE_DISCONNECTED_C = Fin (- 127)"
  by (simp add: DEVICE_DISCONNECTED_C_def int_to_float_small)

section \<open>Conversions: helper facts\<close>

lemma inf_signed_not_NaN [simp]: "inf_signed b \<noteq> NaN"
  by (simp add: inf_signed_def)

lemma fp_mul_rnd32_not_NaN:
  "x \<noteq> NaN \<Longrightarrow> c \<noteq> 0 \<Longrightarrow> fp_mul rnd32 x (Fin c) \<noteq> NaN"
  by (cases x) simp_all

lemma fp_mul_rnd64_not_NaN:
  "x \<noteq> NaN \<Longrightarrow> c \<noteq> 0 \<Longrightarrow> fp_mul rnd64 (Fin c) x \<noteq> NaN"
  by (cases x) simp_all

lemma fp_add_rnd32_not_NaN: "x \<noteq> NaN \<Longrightarrow> fp_add rnd32 x (Fin c) \<noteq> NaN"
  by (cases x) simp_all

lemma fp_sub_rnd64_not_NaN: "x \<noteq> NaN \<Longrightarrow> fp_sub rnd64 (Fin c) x \<noteq> NaN"
  by (cases x) (simp_all add: fp_sub_def)

lemma fp_div_rnd32_not_NaN: "x \<noteq> NaN \<Longrightarrow> c \<noteq> 0 \<Longrightarrow> fp_div rnd32 x (Fin c) \<noteq> NaN"
  by (cases x) simp_all

lemma to_float_not_NaN: "x \<noteq> NaN \<Longrightarrow> to_float x \<noteq> NaN"
  by (cases x) simp_all

text \<open>The two guarded assignments clamp every value that is not a NaN.\<close>

lemma clamp_range:
  assumes "y \<noteq> NaN" "lo \<le> hi"
  defines "y1 \<equiv> (if flt y (Fin lo) then Fin lo else y)"
  defines "y2 \<equiv> (if fgt y1 (Fin hi) then Fin hi else y1)"
  shows "fle (Fin lo) y2 \<and> fle y2 (Fin hi)"
  using assms(1,2) unfolding y1_def y2_def by (cases y) (auto simp: fgt_def)

lemma clamp_nested:
  assumes "lo \<le> hi"
  shows "(if fgt (if flt y (Fin lo) then Fin lo else y) (Fin hi) then Fin hi
          else (if flt y (Fin lo) then Fin lo else y))
         = (if flt y (Fin lo) then Fin lo else if fgt y (Fin hi) then Fin hi else y)"
  using assms by (cases y) (auto simp: fgt_def)

lemma clamp_NaN:
  "(if fgt (if flt NaN (Fin lo) then Fin lo else NaN) (Fin hi) then Fin hi
    else (if flt NaN (Fin lo) then Fin lo else NaN)) = NaN"
  by (simp add: fgt_def)

lemma clamp_NaN_iff:
  "(if fgt (if flt y (Fin lo) then Fin lo else y) (Fin hi) then Fin hi
    else (if flt y (Fin lo) then Fin lo else y)) = NaN \<longleftrightarrow> y = NaN"
  by (cases y) (auto simp: fgt_def)

lemma konversiKePH_unfold:
  "konversiKePH v =
     (let ph = fp_add rnd32 (fp_mul rnd32 v PH_SLOPE) PH_OFFSET;
          ph1 = (if flt ph (Fin 0) then Fin 0 else ph)
      in if fgt ph1 (Fin 14) then Fin 14 else ph1)"
  by (simp add: konversiKePH_def Let_def)

lemma konversiKeNTU_unfold:
  "konversiKeNTU v =
     (let ntu = to_float (fp_mul rnd64 NTU_MAX (fp_sub rnd64 (Fin 1) (fp_div rnd32 v V_REF)));
          ntu1 = (if flt ntu (Fin 0) then Fin 0 else ntu)
      in if fgt ntu1 (Fin 1000) then Fin 1000 else ntu1)"
  by (simp add: konversiKeNTU_def Let_def)

lemma ph_raw_NaN_iff:
  "fp_add rnd32 (fp_mul rnd32 v PH_SLOPE) PH_OFFSET = NaN \<longleftrightarrow> v = NaN"
  by (cases v) (simp_all add: PH_SLOPE_val inf_signed_def fp_add_rnd32_not_NaN)

lemma ntu_raw_NaN_iff:
  "to_float (fp_mul rnd64 NTU_MAX (fp_sub rnd64 (Fin 1) (fp_div rnd32 v V_REF))) = NaN
   \<longleftrightarrow> v = NaN"
proof (cases v)
  case (Fin a)
  have "fp_div rnd32 (Fin a) V_REF \<noteq> NaN"
    by (simp add: V_REF_val fp_div_rnd32_not_NaN)
  then have "fp_sub rnd64 (Fin 1) (fp_div rnd32 (Fin a) V_REF) \<noteq> NaN"
    by (rule fp_sub_rnd64_not_NaN)
  then have "fp_mul rnd64 (Fin 1000) (fp_sub rnd64 (Fin 1) (fp_div rnd32 (Fin a) V_REF)) \<noteq> NaN"
    by (rule fp_mul_rnd64_not_NaN) simp
  then show ?thesis using Fin by (simp add: to_float_not_NaN)
qed (simp_all add: V_REF_val inf_signed_def fp_sub_def)

text \<open>The voltage the sketch passes to the conversions is never a NaN.\<close>

lemma adcKeVoltage_not_NaN: "adcKeVoltage r \<noteq> NaN"
proof -
  have "int_to_float r \<noteq> NaN" by (simp add: int_to_float_def)
  then have "fp_mul rnd32 (int_to_float r) (Fin (13841203 / 4194304)) \<noteq> NaN"
    by (rule fp_mul_rnd32_not_NaN) simp
  then have d: "fp_div rnd32 (fp_mul rnd32 (int_to_float r) (Fin (13841203 / 4194304)))
                  (Fin 4095) \<noteq> NaN"
    by (rule fp_div_rnd32_not_NaN) simp
  have eq: "adcKeVoltage r =
      fp_div rnd32 (fp_mul rnd32 (int_to_float r) (Fin (13841203 / 4194304))) (Fin 4095)"
    by (simp only: adcKeVoltage_def V_REF_val ADC_RESOLUTION_float)
  show ?thesis unfolding eq by (rule d)
qed

lemma konversiKeNTU_full_scale: "konversiKeNTU V_REF = Fin 0"
  by (simp add: konversiKeNTU_unfold V_REF_val fp_sub_def fgt_def)

lemma konversiKeNTU_zero: "konversiKeNTU (Fin 0) = Fin 1000"
  by (simp add: konversiKeNTU_unfold V_REF_val fp_sub_def fgt_def)

section \<open>Claims on the conversions\<close>

text \<open>
  C1.  For every input voltage, \<^verbatim>\<open>konversiKePH\<close> returns a value in the interval from
  0 to 14: it computes the linear map \<open>tegangan * PH_SLOPE + PH_OFFSET\<close> in float
  arithmetic and clamps the result, never returning a value below 0 or above 14.  A
  voltage is any float that is a number, finite or infinite; every value that
  \<^verbatim>\<open>adcKeVoltage\<close> produces, the only argument the sketch passes, is one.  The result is a
  NaN only for an argument that is a NaN.
\<close>

theorem konversiKePH_range:
  "konversiKePH v =
     (let ph = fp_add rnd32 (fp_mul rnd32 v PH_SLOPE) PH_OFFSET
      in if flt ph (Fin 0) then Fin 0 else if fgt ph (Fin 14) then Fin 14 else ph)
   \<and> \<not> flt (konversiKePH v) (Fin 0) \<and> \<not> fgt (konversiKePH v) (Fin 14)
   \<and> (konversiKePH v = NaN \<longleftrightarrow> v = NaN)
   \<and> (v \<noteq> NaN \<longrightarrow> fle (Fin 0) (konversiKePH v) \<and> fle (konversiKePH v) (Fin 14))
   \<and> fle (Fin 0) (konversiKePH (adcKeVoltage r))
   \<and> fle (konversiKePH (adcKeVoltage r)) (Fin 14)"
proof -
  have range: "\<not> flt (konversiKePH u) (Fin 0) \<and> \<not> fgt (konversiKePH u) (Fin 14)
      \<and> (konversiKePH u = NaN \<longleftrightarrow> u = NaN)
      \<and> (u \<noteq> NaN \<longrightarrow> fle (Fin 0) (konversiKePH u) \<and> fle (konversiKePH u) (Fin 14))" for u
  proof -
    define ph where "ph = fp_add rnd32 (fp_mul rnd32 u PH_SLOPE) PH_OFFSET"
    have k: "konversiKePH u =
        (if fgt (if flt ph (Fin 0) then Fin 0 else ph) (Fin 14) then Fin 14
         else (if flt ph (Fin 0) then Fin 0 else ph))"
      by (simp add: konversiKePH_unfold ph_def Let_def)
    have n: "ph = NaN \<longleftrightarrow> u = NaN" unfolding ph_def by (rule ph_raw_NaN_iff)
    show ?thesis using n unfolding k by (cases ph) (auto simp: fgt_def)
  qed
  define ph where "ph = fp_add rnd32 (fp_mul rnd32 v PH_SLOPE) PH_OFFSET"
  have k: "konversiKePH v =
      (if fgt (if flt ph (Fin 0) then Fin 0 else ph) (Fin 14) then Fin 14
       else (if flt ph (Fin 0) then Fin 0 else ph))"
    by (simp add: konversiKePH_unfold ph_def Let_def)
  have form: "konversiKePH v =
      (if flt ph (Fin 0) then Fin 0 else if fgt ph (Fin 14) then Fin 14 else ph)"
    unfolding k by (rule clamp_nested) simp
  have prog: "fle (Fin 0) (konversiKePH (adcKeVoltage r))
      \<and> fle (konversiKePH (adcKeVoltage r)) (Fin 14)"
    using range[of "adcKeVoltage r"] adcKeVoltage_not_NaN[of r] by blast
  from form range[of v] prog show ?thesis by (simp add: ph_def Let_def)
qed

theorem konversiKePH_range_witness:
  "Fin 1 \<noteq> NaN \<and> fle (Fin 0) (konversiKePH (Fin 1)) \<and> fle (konversiKePH (Fin 1)) (Fin 14)"
proof -
  have h: "Fin 1 \<noteq> NaN" by simp
  from konversiKePH_range [where v = "Fin 1"] h show ?thesis by blast
qed

text \<open>
  C2.  For every input voltage, \<^verbatim>\<open>konversiKeNTU\<close> returns a value in the interval from
  0 to 1000, computed as \<open>NTU_MAX * (1 - tegangan / V_REF)\<close> and clamped; at the end
  points, the turbidity of 3.3 is 0 and the turbidity of 0 is 1000.  A voltage is any float
  that is a number, finite or infinite; every value that \<^verbatim>\<open>adcKeVoltage\<close> produces, the
  only argument the sketch passes, is one.  The result is a NaN only for an argument that
  is a NaN.
\<close>

theorem konversiKeNTU_range:
  "konversiKeNTU v =
     (let ntu = to_float (fp_mul rnd64 NTU_MAX (fp_sub rnd64 (Fin 1) (fp_div rnd32 v V_REF)))
      in if flt ntu (Fin 0) then Fin 0 else if fgt ntu (Fin 1000) then Fin 1000 else ntu)
   \<and> \<not> flt (konversiKeNTU v) (Fin 0) \<and> \<not> fgt (konversiKeNTU v) (Fin 1000)
   \<and> (konversiKeNTU v = NaN \<longleftrightarrow> v = NaN)
   \<and> (v \<noteq> NaN \<longrightarrow> fle (Fin 0) (konversiKeNTU v) \<and> fle (konversiKeNTU v) (Fin 1000))
   \<and> fle (Fin 0) (konversiKeNTU (adcKeVoltage r))
   \<and> fle (konversiKeNTU (adcKeVoltage r)) (Fin 1000)
   \<and> konversiKeNTU (to_float (dlit (33 / 10))) = Fin 0
   \<and> konversiKeNTU (to_float (dlit 0)) = Fin 1000"
proof -
  have range: "\<not> flt (konversiKeNTU u) (Fin 0) \<and> \<not> fgt (konversiKeNTU u) (Fin 1000)
      \<and> (konversiKeNTU u = NaN \<longleftrightarrow> u = NaN)
      \<and> (u \<noteq> NaN \<longrightarrow> fle (Fin 0) (konversiKeNTU u) \<and> fle (konversiKeNTU u) (Fin 1000))"
    for u
  proof -
    define ntu where
      "ntu = to_float (fp_mul rnd64 NTU_MAX (fp_sub rnd64 (Fin 1) (fp_div rnd32 u V_REF)))"
    have k: "konversiKeNTU u =
        (if fgt (if flt ntu (Fin 0) then Fin 0 else ntu) (Fin 1000) then Fin 1000
         else (if flt ntu (Fin 0) then Fin 0 else ntu))"
      by (simp add: konversiKeNTU_unfold ntu_def Let_def)
    have n: "ntu = NaN \<longleftrightarrow> u = NaN" unfolding ntu_def by (rule ntu_raw_NaN_iff)
    show ?thesis using n unfolding k by (cases ntu) (auto simp: fgt_def)
  qed
  define ntu where
    "ntu = to_float (fp_mul rnd64 NTU_MAX (fp_sub rnd64 (Fin 1) (fp_div rnd32 v V_REF)))"
  have k: "konversiKeNTU v =
      (if fgt (if flt ntu (Fin 0) then Fin 0 else ntu) (Fin 1000) then Fin 1000
       else (if flt ntu (Fin 0) then Fin 0 else ntu))"
    by (simp add: konversiKeNTU_unfold ntu_def Let_def)
  have form: "konversiKeNTU v =
      (if flt ntu (Fin 0) then Fin 0 else if fgt ntu (Fin 1000) then Fin 1000 else ntu)"
    unfolding k by (rule clamp_nested) simp
  have prog: "fle (Fin 0) (konversiKeNTU (adcKeVoltage r))
      \<and> fle (konversiKeNTU (adcKeVoltage r)) (Fin 1000)"
    using range[of "adcKeVoltage r"] adcKeVoltage_not_NaN[of r] by blast
  have e1: "konversiKeNTU (to_float (dlit (33 / 10))) = Fin 0"
    using konversiKeNTU_full_scale by (simp add: V_REF_def)
  have e2: "konversiKeNTU (to_float (dlit 0)) = Fin 1000"
    using konversiKeNTU_zero by simp
  from form range[of v] prog e1 e2 show ?thesis by (simp add: ntu_def Let_def)
qed

theorem konversiKeNTU_range_witness:
  "Fin 1 \<noteq> NaN \<and> fle (Fin 0) (konversiKeNTU (Fin 1)) \<and> fle (konversiKeNTU (Fin 1)) (Fin 1000)"
proof -
  have h: "Fin 1 \<noteq> NaN" by simp
  from konversiKeNTU_range [where v = "Fin 1"] h show ?thesis by blast
qed

section \<open>The voltage of a raw code\<close>

lemma round32_product_top:
  "round_real 24 (- 126) (56679726285 / 4194304) = 27027 / 2"
  using round_real_cert[of "- 126" 13 "56679726285 / 4194304" 24 13837824] by simp

lemma round32_quotient_top: "round_real 24 (- 126) (33 / 10) = 13841203 / 4194304"
  using round_real_cert[of "- 126" 1 "33 / 10" 24 13841203] by simp

lemma rnd32_bounded:
  assumes "0 \<le> x" "x \<le> b" "round_real 24 (- 126) b < 2 ^ 128"
  shows "rnd32 x = Fin (round_real 24 (- 126) x)"
proof -
  have "0 \<le> round_real 24 (- 126) x" using assms(1) by (rule round_real_nonneg)
  moreover have "round_real 24 (- 126) x \<le> round_real 24 (- 126) b"
    using assms(1,2) by (intro round_real_mono_nonneg) simp_all
  ultimately have "\<bar>round_real 24 (- 126) x\<bar> < 2 powi (127 + 1)"
    using assms(3) by simp
  then show ?thesis unfolding rnd32_def by (rule round_fp_Fin)
qed

text \<open>The value of \<^verbatim>\<open>adcKeVoltage\<close> on a code \<open>n\<close> of the 12-bit range.\<close>

lemma adcKeVoltage_value:
  assumes "0 \<le> sint r" "sint r \<le> 4095"
  shows "adcKeVoltage r =
    Fin (round_real 24 (- 126)
          (round_real 24 (- 126) (of_int (sint r) * (13841203 / 4194304)) / 4095))"
proof -
  define n :: real where "n = of_int (sint r)"
  define a where "a = round_real 24 (- 126) (n * (13841203 / 4194304))"
  have n: "0 \<le> n" "n \<le> 4095" using assms by (simp_all add: n_def del: of_int_sint)
  have cast: "int_to_float r = Fin n"
    unfolding n_def using assms by (intro int_to_float_small) simp
  have prod: "0 \<le> n * (13841203 / 4194304)" "n * (13841203 / 4194304) \<le> 4095 * (13841203 / 4194304)"
    using n by simp_all
  have mul: "rnd32 (n * (13841203 / 4194304)) = Fin a"
    unfolding a_def using prod by (rule rnd32_bounded) (simp add: round32_product_top)
  have a: "0 \<le> a" "a \<le> 27027 / 2"
    unfolding a_def using round_real_nonneg[OF prod(1)]
      round_real_mono_nonneg[OF _ prod, of 24 "- 126"] by (simp_all add: round32_product_top)
  have quot: "0 \<le> a / 4095" "a / 4095 \<le> 33 / 10" using a by simp_all
  have dv: "rnd32 (a / 4095) = Fin (round_real 24 (- 126) (a / 4095))"
    using quot by (rule rnd32_bounded) (simp add: round32_quotient_top)
  have "adcKeVoltage r =
      fp_div rnd32 (fp_mul rnd32 (Fin n) (Fin (13841203 / 4194304))) (Fin 4095)"
    by (simp only: adcKeVoltage_def cast V_REF_val ADC_RESOLUTION_float)
  also have "\<dots> = fp_div rnd32 (Fin a) (Fin 4095)"
    by (simp only: fp_mul.simps mul)
  also have "\<dots> = rnd32 (a / 4095)" by simp
  also have "\<dots> = Fin (round_real 24 (- 126) (a / 4095))" by (rule dv)
  finally show ?thesis unfolding a_def n_def .
qed

lemma adcKeVoltage_mono:
  assumes "0 \<le> sint r1" "sint r1 \<le> sint r2" "sint r2 \<le> 4095"
  shows "fle (adcKeVoltage r1) (adcKeVoltage r2)"
proof -
  define n1 :: real where "n1 = of_int (sint r1)"
  define n2 :: real where "n2 = of_int (sint r2)"
  have n: "0 \<le> n1" "n1 \<le> n2"
    using assms by (simp_all add: n1_def n2_def del: of_int_sint)
  have p: "0 \<le> n1 * (13841203 / 4194304)" "n1 * (13841203 / 4194304) \<le> n2 * (13841203 / 4194304)"
    using n by simp_all
  have a: "0 \<le> round_real 24 (- 126) (n1 * (13841203 / 4194304))"
    using p(1) by (rule round_real_nonneg)
  have b: "round_real 24 (- 126) (n1 * (13841203 / 4194304))
           \<le> round_real 24 (- 126) (n2 * (13841203 / 4194304))"
    using p by (intro round_real_mono_nonneg) simp_all
  have "round_real 24 (- 126) (round_real 24 (- 126) (n1 * (13841203 / 4194304)) / 4095)
        \<le> round_real 24 (- 126) (round_real 24 (- 126) (n2 * (13841203 / 4194304)) / 4095)"
    using a b by (intro round_real_mono_nonneg) (simp_all add: divide_right_mono)
  moreover have "adcKeVoltage r1 =
      Fin (round_real 24 (- 126) (round_real 24 (- 126) (n1 * (13841203 / 4194304)) / 4095))"
    unfolding n1_def using assms by (intro adcKeVoltage_value) simp_all
  moreover have "adcKeVoltage r2 =
      Fin (round_real 24 (- 126) (round_real 24 (- 126) (n2 * (13841203 / 4194304)) / 4095))"
    unfolding n2_def using assms by (intro adcKeVoltage_value) simp_all
  ultimately show ?thesis by simp
qed

lemma adcKeVoltage_0: "adcKeVoltage 0 = Fin 0"
  using adcKeVoltage_value[of 0] by simp

lemma adcKeVoltage_4095: "adcKeVoltage 4095 = V_REF"
  using adcKeVoltage_value[of 4095]
  by (simp add: round32_product_top round32_quotient_top V_REF_val)

text \<open>
  C3.  For all raw codes in the range from 0 to 4095, \<^verbatim>\<open>adcKeVoltage\<close> computes
  \<open>raw * V_REF / ADC_RESOLUTION\<close> in float arithmetic, is monotonically non-decreasing in
  the code, and its result lies between 0 and 3.3 (at most \<open>V_REF\<close>, the float next to 3.3).
\<close>

theorem adcKeVoltage_monotone_bounded:
  assumes "0 \<le> sint r1" "sint r1 \<le> sint r2" "sint r2 \<le> 4095"
  shows "adcKeVoltage r1 =
           fp_div rnd32 (fp_mul rnd32 (int_to_float r1) V_REF) (int_to_float ADC_RESOLUTION)
       \<and> fle (adcKeVoltage r1) (adcKeVoltage r2)
       \<and> fle (Fin 0) (adcKeVoltage r1)
       \<and> fle (adcKeVoltage r2) V_REF
       \<and> fle (adcKeVoltage r2) (Fin (33 / 10))"
proof -
  have lo: "fle (adcKeVoltage 0) (adcKeVoltage r1)"
    using assms by (intro adcKeVoltage_mono) simp_all
  have hi: "fle (adcKeVoltage r2) (adcKeVoltage 4095)"
    using assms by (intro adcKeVoltage_mono) simp_all
  have mid: "fle (adcKeVoltage r1) (adcKeVoltage r2)"
    using assms by (rule adcKeVoltage_mono)
  have hi': "fle (adcKeVoltage r2) (Fin (33 / 10))"
    using hi unfolding adcKeVoltage_4095 V_REF_val by (cases "adcKeVoltage r2") simp_all
  from lo hi mid hi' show ?thesis
    by (simp add: adcKeVoltage_0 adcKeVoltage_4095) (simp add: adcKeVoltage_def)
qed

theorem adcKeVoltage_monotone_bounded_witness:
  "0 \<le> sint (1000 :: 32 word) \<and> sint (1000 :: 32 word) \<le> sint (2048 :: 32 word)
   \<and> sint (2048 :: 32 word) \<le> 4095
   \<and> fle (adcKeVoltage 1000) (adcKeVoltage 2048)
   \<and> fle (Fin 0) (adcKeVoltage 1000)
   \<and> fle (adcKeVoltage 2048) (Fin (33 / 10))"
proof -
  have h: "0 \<le> sint (1000 :: 32 word)" "sint (1000 :: 32 word) \<le> sint (2048 :: 32 word)"
    "sint (2048 :: 32 word) \<le> 4095" by simp_all
  from adcKeVoltage_monotone_bounded [OF h] h show ?thesis by blast
qed

section \<open>Classification\<close>

lemma kategoriPH_unfold:
  "kategoriPH ph =
     (if flt ph (Fin 4) then ''Sangat Asam '' @ utf8_warning
      else if flt ph (Fin (13 / 2)) then ''Asam''
      else if fle ph (Fin (17 / 2)) then ''Normal '' @ utf8_check
      else if fle ph (Fin 11) then ''Basa''
      else ''Sangat Basa '' @ utf8_warning)"
  by (simp add: kategoriPH_def)

lemma kategoriTurbidity_unfold:
  "kategoriTurbidity ntu =
     (if flt ntu (Fin 5) then ''Jernih '' @ utf8_check
      else if flt ntu (Fin 50) then ''Sedikit Keruh''
      else if flt ntu (Fin 200) then ''Keruh''
      else if flt ntu (Fin 500) then ''Sangat Keruh '' @ utf8_warning
      else ''Ekstrem Keruh '' @ utf8_siren)"
  by (simp add: kategoriTurbidity_def)

text \<open>
  C4 (as amended).  \<^verbatim>\<open>kategoriPH\<close> assigns every value exactly one of five bands:
  below 4 very acidic, from 4 to below 6.5 acidic, from 6.5 up to 8.5 normal, above 8.5 up
  to 11 basic, and everything else (above 11, or a NaN) very basic.  The first two bands
  are open on their upper bound, the normal and the basic band are closed on it, the
  last is open-ended.  The result is always one of the five labels, which are pairwise
  different, and each label is returned exactly on its band: the bands exclude each other
  and cover every input.
\<close>

theorem kategoriPH_bands:
  "(kategoriPH ph = ''Sangat Asam '' @ utf8_warning \<longleftrightarrow> flt ph (Fin 4))
   \<and> (kategoriPH ph = ''Asam'' \<longleftrightarrow> fle (Fin 4) ph \<and> flt ph (Fin (13 / 2)))
   \<and> (kategoriPH ph = ''Normal '' @ utf8_check
        \<longleftrightarrow> fle (Fin (13 / 2)) ph \<and> fle ph (Fin (17 / 2)))
   \<and> (kategoriPH ph = ''Basa'' \<longleftrightarrow> flt (Fin (17 / 2)) ph \<and> fle ph (Fin 11))
   \<and> (kategoriPH ph = ''Sangat Basa '' @ utf8_warning \<longleftrightarrow> \<not> fle ph (Fin 11))
   \<and> kategoriPH ph \<in> set [''Sangat Asam '' @ utf8_warning, ''Asam'', ''Normal '' @ utf8_check,
                           ''Basa'', ''Sangat Basa '' @ utf8_warning]
   \<and> distinct [''Sangat Asam '' @ utf8_warning, ''Asam'', ''Normal '' @ utf8_check,
                 ''Basa'', ''Sangat Basa '' @ utf8_warning]"
  unfolding kategoriPH_unfold utf8_warning_def utf8_check_def
  by (cases ph) auto

text \<open>
  C4 as stated fails at the upper bounds 4 and 6.5 of the first two bands, which belong
  to the next band.
\<close>

theorem kategoriPH_upper_bound_counterexample:
  "kategoriPH (Fin 4) \<noteq> ''Sangat Asam '' @ utf8_warning
   \<and> kategoriPH (Fin (13 / 2)) \<noteq> ''Asam''"
  by (simp add: kategoriPH_unfold utf8_check_def)

section \<open>The example voltage 1.65\<close>

lemma volt_165: "to_float (dlit (33 / 20)) = Fin (13841203 / 8388608)"
proof -
  have "dlit (33 / 20) = Fin (3715469692580659 / 2251799813685248)"
    using rnd64_cert[of 0 "33 / 20" 7430939385161318] by (simp add: dlit_def)
  moreover have "rnd32 (3715469692580659 / 2251799813685248) = Fin (13841203 / 8388608)"
    using rnd32_cert[of 0 "3715469692580659 / 2251799813685248" 13841203] by simp
  ultimately show ?thesis by simp
qed

lemma ph_165: "konversiKePH (Fin (13841203 / 8388608)) = Fin (14680065 / 2097152)"
proof -
  have "rnd32 (13841203 / 8388608 * (8897009 / 2097152)) = Fin (14680065 / 2097152)"
    using rnd32_cert[of 2 "13841203 / 8388608 * (8897009 / 2097152)" 14680065] by simp
  moreover have "rnd32 (14680065 / 2097152) = Fin (14680065 / 2097152)"
    by (rule rnd32_exact[where m = 14680065 and k = "- 21"]) simp_all
  ultimately show ?thesis
    by (simp add: konversiKePH_unfold PH_SLOPE_val fgt_def)
qed

lemma ntu_165: "konversiKeNTU (Fin (13841203 / 8388608)) = Fin 500"
proof -
  have "rnd32 (1 / 2) = Fin (1 / 2)"
    by (rule rnd32_exact[where m = 1 and k = "- 1"]) simp_all
  moreover have "rnd64 (1 / 2) = Fin (1 / 2)"
    by (rule rnd64_exact[where m = 1 and k = "- 1"]) simp_all
  ultimately show ?thesis
    by (simp add: konversiKeNTU_unfold V_REF_val fp_sub_def fgt_def)
qed

text \<open>
  C5 (as amended).  For the input voltage 1.65 the acidity conversion yields
  7.000000477 (within one millionth of 7.0), which is in the normal band; the turbidity
  conversion yields exactly 500, which is in the band \<^verbatim>\<open>Ekstrem Keruh\<close>, since the band
  \<^verbatim>\<open>Sangat Keruh\<close> ends below 500.
\<close>

theorem example_voltage_165:
  "konversiKePH (to_float (dlit (33 / 20))) = Fin (14680065 / 2097152)
   \<and> \<bar>14680065 / 2097152 - 7\<bar> < (1 / 10 ^ 6 :: real)
   \<and> kategoriPH (konversiKePH (to_float (dlit (33 / 20)))) = ''Normal '' @ utf8_check
   \<and> konversiKeNTU (to_float (dlit (33 / 20))) = Fin 500
   \<and> kategoriTurbidity (konversiKeNTU (to_float (dlit (33 / 20))))
       = ''Ekstrem Keruh '' @ utf8_siren"
  by (simp add: volt_165 ph_165 ntu_165 kategoriPH_unfold kategoriTurbidity_unfold)

text \<open>C5 as stated fails: the turbidity at 1.65 is not in the band \<^verbatim>\<open>Sangat Keruh\<close>.\<close>

theorem example_voltage_165_counterexample:
  "kategoriTurbidity (konversiKeNTU (to_float (dlit (33 / 20))))
   \<noteq> ''Sangat Keruh '' @ utf8_warning"
  by (simp add: volt_165 ntu_165 kategoriTurbidity_unfold)

section \<open>Averaging the analog samples\<close>

lemma sint_of_nat_32: "n < 2 ^ 31 \<Longrightarrow> sint (of_nat n :: 32 word) = int n"
  using signed_of_nat[where ?'a = int and ?'b = 32, of n]
  by (simp add: signed_take_bit_int_eq_self)

lemma baca_loop_step:
  assumes "sint i < 10"
  shows "baca_loop pin i tot s =
           baca_loop pin (i + 1) (tot + ucast (fst (analogRead (ucast pin) s)))
             (delay 2 (snd (analogRead (ucast pin) s)))"
  using assms by (subst baca_loop.simps) (simp add: word_sless_alt JUMLAH_SAMPLING_def)

lemma baca_loop_exit:
  assumes "10 \<le> sint i"
  shows "baca_loop pin i tot s = (tot, s)"
  using assms by (subst baca_loop.simps) (simp add: word_sless_alt JUMLAH_SAMPLING_def)

text \<open>
  The loop with \<open>j\<close> iterations left: it reads the next \<open>j\<close> samples of the pin, adds
  them to the accumulator, and waits two milliseconds after each.
\<close>

lemma baca_loop_remaining:
  assumes "j \<le> 10"
  shows "baca_loop pin (of_nat (10 - j)) tot s =
           (tot + (\<Sum>k<j. ucast (adc_input s (ucast pin) (adc_reads s (ucast pin) + k))),
            s\<lparr>adc_reads := (adc_reads s)(ucast pin := adc_reads s (ucast pin) + j),
              delayed_ms := delayed_ms s + 2 * j\<rparr>)"
  using assms
proof (induction j arbitrary: tot s)
  case 0
  have "baca_loop pin (of_nat (10 - 0)) tot s = (tot, s)"
    by (rule baca_loop_exit) simp
  then show ?case by simp
next
  case (Suc j)
  define p :: "8 word" where "p = ucast pin"
  define i :: "32 word" where "i = of_nat (10 - Suc j)"
  define s' where "s' = delay 2 (snd (analogRead p s))"
  define v where "v = adc_input s p (adc_reads s p)"
  have si: "sint i = int (10 - Suc j)" unfolding i_def by (rule sint_of_nat_32) simp
  have i1: "i + 1 = of_nat (10 - j)"
  proof -
    have "10 - j = Suc (10 - Suc j)" using Suc.prems by simp
    then show ?thesis by (simp add: i_def)
  qed
  have s': "adc_input s' = adc_input s" "adc_reads s' = (adc_reads s)(p := Suc (adc_reads s p))"
    "delayed_ms s' = delayed_ms s + 2"
    by (simp_all add: s'_def delay_def analogRead_def)
  have "baca_loop pin i tot s = baca_loop pin (i + 1) (tot + ucast v) s'"
    unfolding s'_def v_def p_def
    by (subst baca_loop_step) (simp_all add: si analogRead_def)
  also have "\<dots> =
      (tot + ucast v + (\<Sum>k<j. ucast (adc_input s' p (adc_reads s' p + k))),
       s'\<lparr>adc_reads := (adc_reads s')(p := adc_reads s' p + j),
          delayed_ms := delayed_ms s' + 2 * j\<rparr>)"
    unfolding i1 p_def using Suc.prems by (intro Suc.IH) simp
  also have "tot + ucast v + (\<Sum>k<j. ucast (adc_input s' p (adc_reads s' p + k)) :: 32 word)
      = tot + (\<Sum>k<Suc j. ucast (adc_input s p (adc_reads s p + k)))"
    by (simp add: s' v_def sum.lessThan_Suc_shift add.assoc del: sum.lessThan_Suc)
  also have "s'\<lparr>adc_reads := (adc_reads s')(p := adc_reads s' p + j),
                delayed_ms := delayed_ms s' + 2 * j\<rparr>
      = s\<lparr>adc_reads := (adc_reads s)(p := adc_reads s p + Suc j),
           delayed_ms := delayed_ms s + 2 * Suc j\<rparr>"
    by (simp add: s'_def delay_def analogRead_def)
  finally show ?case unfolding i_def p_def .
qed

text \<open>The integer sum of the next ten samples of a pin.\<close>

lemma ucast_sum_32:
  "(\<Sum>k<(j::nat). ucast (w k :: 16 word) :: 32 word) = of_nat (\<Sum>k<j. unat (w k))"
  by (induction j) simp_all

lemma sample_sum_bound:
  "(\<Sum>k<(j::nat). unat (w k :: 16 word)) \<le> j * 65535"
proof -
  have "\<And>k. unat (w k) \<le> 65535"
  proof -
    fix k
    have "unat (w k) < 2 ^ 16" using unsigned_less[of "w k", where ?'a = nat] by simp
    then show "unat (w k) \<le> 65535" by simp
  qed
  then have "(\<Sum>k<j. unat (w k)) \<le> of_nat (card {..<j}) * 65535"
    by (intro sum_bounded_above) simp
  then show ?thesis by simp
qed

lemma baca_loop_total:
  "baca_loop pin 0 0 s =
     (of_nat (\<Sum>k<10. unat (adc_input s (ucast pin) (adc_reads s (ucast pin) + k))),
      s\<lparr>adc_reads := (adc_reads s)(ucast pin := adc_reads s (ucast pin) + 10),
        delayed_ms := delayed_ms s + 20\<rparr>)"
proof -
  have "baca_loop pin (of_nat (10 - 10)) 0 s =
     (0 + (\<Sum>k<10. ucast (adc_input s (ucast pin) (adc_reads s (ucast pin) + k))),
      s\<lparr>adc_reads := (adc_reads s)(ucast pin := adc_reads s (ucast pin) + 10),
        delayed_ms := delayed_ms s + 2 * 10\<rparr>)"
    by (rule baca_loop_remaining) simp
  moreover have "(of_nat (10 - 10) :: 32 word) = 0" "2 * 10 = (20::nat)" by simp_all
  ultimately show ?thesis by (simp only: ucast_sum_32 add_0)
qed

lemma sint_accumulator:
  "sint (fst (baca_loop pin 0 0 s)) =
     (\<Sum>k<10. uint (adc_input s (ucast pin) (adc_reads s (ucast pin) + k)))"
proof -
  define S where "S = (\<Sum>k<10. unat (adc_input s (ucast pin) (adc_reads s (ucast pin) + k)))"
  have "S \<le> 10 * 65535" unfolding S_def by (rule sample_sum_bound)
  then have "S < 2 ^ 31" by simp
  then have "sint (of_nat S :: 32 word) = int S" by (rule sint_of_nat_32)
  also have "int S = (\<Sum>k<10. int (unat (adc_input s (ucast pin) (adc_reads s (ucast pin) + k))))"
    by (simp only: S_def of_nat_sum)
  also have "\<dots> = (\<Sum>k<10. uint (adc_input s (ucast pin) (adc_reads s (ucast pin) + k)))"
    by (simp only: uint_nat)
  finally show ?thesis
    by (simp only: baca_loop_total S_def fst_conv)
qed

lemma c_sdiv_small:
  assumes "0 \<le> sint a" "0 < sint b"
  shows "sint (c_sdiv a b) = sint a div sint b"
proof -
  have d: "sint a sdiv sint b = sint a div sint b"
    using assms by (simp add: signed_divide_int_def sgn_if)
  have "sint a div sint b \<le> sint a"
    using assms(1) by (cases "sint a = 0") (simp_all add: int_div_le_self)
  moreover have "0 \<le> sint a div sint b" using assms by (simp add: pos_imp_zdiv_nonneg_iff)
  moreover have "sint a < 2 ^ 31" using sint_lt[of a] by simp
  ultimately have "sint (word_of_int (sint a div sint b) :: 32 word) = sint a div sint b"
    by (simp add: sint_sbintrunc' signed_take_bit_int_eq_self)
  then show ?thesis by (simp add: c_sdiv_def d)
qed

lemma baca_loop_final_state:
  "baca_loop pin 0 0 s = (T, s') \<Longrightarrow>
     s' = s\<lparr>adc_reads := (adc_reads s)(ucast pin := adc_reads s (ucast pin) + 10),
            delayed_ms := delayed_ms s + 20\<rparr>"
  using baca_loop_total[of pin s] by (simp only: prod.inject)

lemma baca_loop_final_total:
  "baca_loop pin 0 0 s = (T, s') \<Longrightarrow> sint T = (\<Sum>k<10. upcoming_sample pin s k)"
  using sint_accumulator[of pin s] by (simp only: fst_conv upcoming_sample_def)

lemma sample_sum_nonneg: "0 \<le> (\<Sum>k<10. upcoming_sample pin s k)"
  by (intro sum_nonneg) (simp add: upcoming_sample_def)

lemma c_sdiv_JUMLAH_SAMPLING:
  "sint T = S \<Longrightarrow> 0 \<le> S \<Longrightarrow> sint (c_sdiv T JUMLAH_SAMPLING) = S div 10"
  by (subst c_sdiv_small) (simp_all add: JUMLAH_SAMPLING_def)

lemma bacaADCRataRata_unfold:
  "baca_loop pin 0 0 s = (T, s') \<Longrightarrow> bacaADCRataRata pin s = (c_sdiv T JUMLAH_SAMPLING, s')"
  by (simp add: bacaADCRataRata_def)

lemma bacaADCRataRata_result:
  "sint (fst (bacaADCRataRata pin s)) = (\<Sum>k<10. upcoming_sample pin s k) div 10"
proof -
  obtain T s' where bl: "baca_loop pin 0 0 s = (T, s')"
    by (cases "baca_loop pin 0 0 s")
  show ?thesis
    using c_sdiv_JUMLAH_SAMPLING[OF baca_loop_final_total[OF bl] sample_sum_nonneg]
    by (simp only: bacaADCRataRata_unfold[OF bl] fst_conv)
qed

lemma bacaADCRataRata_state:
  "snd (bacaADCRataRata pin s) =
     s\<lparr>adc_reads := (adc_reads s)(ucast pin := adc_reads s (ucast pin) + 10),
       delayed_ms := delayed_ms s + 20\<rparr>"
proof -
  obtain T s' where bl: "baca_loop pin 0 0 s = (T, s')"
    by (cases "baca_loop pin 0 0 s")
  show ?thesis
    using baca_loop_final_state[OF bl] by (simp only: bacaADCRataRata_unfold[OF bl] snd_conv)
qed

lemma mean_between:
  fixes f :: "nat \<Rightarrow> int"
  assumes "\<And>k. k < 10 \<Longrightarrow> lo \<le> f k" "\<And>k. k < 10 \<Longrightarrow> f k \<le> hi"
  shows "lo \<le> (\<Sum>k<10. f k) div 10" and "(\<Sum>k<10. f k) div 10 \<le> hi"
proof -
  have "of_nat (card {..<10::nat}) * lo \<le> (\<Sum>k<10. f k)"
    using assms(1) by (intro sum_bounded_below) simp
  then have "10 * lo \<le> (\<Sum>k<10. f k)" by simp
  then show "lo \<le> (\<Sum>k<10. f k) div 10" by linarith
  have "(\<Sum>k<10. f k) \<le> of_nat (card {..<10::nat}) * hi"
    using assms(2) by (intro sum_bounded_above) simp
  then have "(\<Sum>k<10. f k) \<le> 10 * hi" by simp
  then show "(\<Sum>k<10. f k) div 10 \<le> hi" by linarith
qed

text \<open>
  C6.  For every sequence of analog samples, \<^verbatim>\<open>bacaADCRataRata\<close> reads the channel
  exactly ten times (the read count of the pin advances by 10, that of no other pin
  changes) and returns the integer-truncated arithmetic mean of the ten samples read: the
  floor of their sum divided by 10.
\<close>

theorem bacaADCRataRata_mean:
  "sint (fst (bacaADCRataRata pin s)) = (\<Sum>k<10. upcoming_sample pin s k) div 10
   \<and> snd (bacaADCRataRata pin s) =
       s\<lparr>adc_reads := (adc_reads s)(ucast pin := adc_reads s (ucast pin) + 10),
         delayed_ms := delayed_ms s + 20\<rparr>"
  using bacaADCRataRata_result[of pin s] bacaADCRataRata_state[of pin s] by (rule conjI)

text \<open>
  C9.  When each of the ten samples lies between 0 and 4095, \<^verbatim>\<open>bacaADCRataRata\<close>
  returns an integer between 0 and 4095, between the least and the greatest sample; the
  accumulator holds the exact sum, at most 40950, so nothing overflows and the result is
  the exact truncated mean.
\<close>

theorem bacaADCRataRata_in_range:
  assumes "\<forall>k<10. upcoming_sample pin s k \<le> 4095"
  shows "0 \<le> sint (fst (bacaADCRataRata pin s))
       \<and> sint (fst (bacaADCRataRata pin s)) \<le> 4095
       \<and> Min ((\<lambda>k. upcoming_sample pin s k) ` {..<10}) \<le> sint (fst (bacaADCRataRata pin s))
       \<and> sint (fst (bacaADCRataRata pin s)) \<le> Max ((\<lambda>k. upcoming_sample pin s k) ` {..<10})
       \<and> sint (fst (baca_loop pin 0 0 s)) = (\<Sum>k<10. upcoming_sample pin s k)
       \<and> (\<Sum>k<10. upcoming_sample pin s k) \<le> 40950
       \<and> sint (fst (bacaADCRataRata pin s)) = (\<Sum>k<10. upcoming_sample pin s k) div 10"
proof -
  let ?f = "\<lambda>k. upcoming_sample pin s k"
  have r: "sint (fst (bacaADCRataRata pin s)) = (\<Sum>k<10. ?f k) div 10"
    by (rule bacaADCRataRata_result)
  have nonneg: "\<And>k. 0 \<le> ?f k" by (simp add: upcoming_sample_def)
  have le: "\<And>k. k < 10 \<Longrightarrow> ?f k \<le> 4095" using assms by simp
  have b: "0 \<le> (\<Sum>k<10. ?f k) div 10" "(\<Sum>k<10. ?f k) div 10 \<le> 4095"
    using mean_between[of 0 ?f 4095] nonneg le by simp_all
  have mn: "\<And>k. k < 10 \<Longrightarrow> Min (?f ` {..<10}) \<le> ?f k" by simp
  have mx: "\<And>k. k < 10 \<Longrightarrow> ?f k \<le> Max (?f ` {..<10})" by simp
  have m: "Min (?f ` {..<10}) \<le> (\<Sum>k<10. ?f k) div 10"
    "(\<Sum>k<10. ?f k) div 10 \<le> Max (?f ` {..<10})"
    using mean_between[of "Min (?f ` {..<10})" ?f "Max (?f ` {..<10})"] mn mx by simp_all
  have acc: "sint (fst (baca_loop pin 0 0 s)) = (\<Sum>k<10. ?f k)"
    using sint_accumulator[of pin s] by (simp only: upcoming_sample_def)
  have "(\<Sum>k<10. ?f k) \<le> of_nat (card {..<10::nat}) * 4095"
    using le by (intro sum_bounded_above) simp
  then have tot: "(\<Sum>k<10. ?f k) \<le> 40950" by simp
  from b m acc tot show ?thesis unfolding r by simp
qed

theorem bacaADCRataRata_in_range_witness:
  "0 \<le> sint (fst (bacaADCRataRata PH_SENSOR_PIN
          (initial_state (\<lambda>pin k. 2048) (\<lambda>k. Fin 25) WL_CONNECTED (\<lambda>k. (200, [])))))
   \<and> sint (fst (bacaADCRataRata PH_SENSOR_PIN
          (initial_state (\<lambda>pin k. 2048) (\<lambda>k. Fin 25) WL_CONNECTED (\<lambda>k. (200, []))))) \<le> 4095"
proof -
  have h: "\<forall>k<10. upcoming_sample PH_SENSOR_PIN
      (initial_state (\<lambda>pin k. 2048) (\<lambda>k. Fin 25) WL_CONNECTED (\<lambda>k. (200, []))) k \<le> 4095"
    by (simp add: upcoming_sample_def initial_state_def)
  from bacaADCRataRata_in_range [OF h] show ?thesis by blast
qed

section \<open>The sampling step and the reporter\<close>

lemma baca_ph_frame [simp]:
  "temp_input (baca_ph s) = temp_input s"
  "temp_reads (baca_ph s) = temp_reads s"
  "serial_log (baca_ph s) = serial_log s"
  by (simp_all add: baca_ph_def Let_def case_prod_unfold bacaADCRataRata_state)

lemma baca_turbidity_frame [simp]:
  "temp_input (baca_turbidity s) = temp_input s"
  "temp_reads (baca_turbidity s) = temp_reads s"
  "serial_log (baca_turbidity s) = serial_log s"
  by (simp_all add: baca_turbidity_def Let_def case_prod_unfold bacaADCRataRata_state)

lemma baca_suhu_disconnected:
  assumes "temp_input s (temp_reads s) = DEVICE_DISCONNECTED_C"
  shows "nilaiSuhu (baca_suhu s) = Fin 0"
    and "serial_log (baca_suhu s) =
           serial_log s @ [Println (utf8_warning @ '' Sensor DS18B20 tidak terdeteksi!'')]"
  using assms by (simp_all add: baca_suhu_def bacaSuhuDS18B20_def println_def)

lemma baca_suhu_connected:
  assumes "\<not> feq (temp_input s (temp_reads s)) DEVICE_DISCONNECTED_C"
  shows "nilaiSuhu (baca_suhu s) = temp_input s (temp_reads s)"
    and "serial_log (baca_suhu s) = serial_log s"
  using assms by (simp_all add: baca_suhu_def bacaSuhuDS18B20_def)

lemma tampilkanDataSerial_frame [simp]:
  "nilaiSuhu (tampilkanDataSerial s) = nilaiSuhu s"
  "serial_log (tampilkanDataSerial s) = serial_log s @ [dashboard_of s]"
  "dashboard_of (tampilkanDataSerial s) = dashboard_of s"
  by (simp_all add: tampilkanDataSerial_def dashboard_of_def)

lemma kirimDataKeServer_readings:
  "rawPH (kirimDataKeServer fmt s) = rawPH s"
  "rawTurbidity (kirimDataKeServer fmt s) = rawTurbidity s"
  "teganganPH (kirimDataKeServer fmt s) = teganganPH s"
  "teganganTurbidity (kirimDataKeServer fmt s) = teganganTurbidity s"
  "nilaiPH (kirimDataKeServer fmt s) = nilaiPH s"
  "nilaiTurbidity (kirimDataKeServer fmt s) = nilaiTurbidity s"
  "nilaiSuhu (kirimDataKeServer fmt s) = nilaiSuhu s"
  by (simp_all add: kirimDataKeServer_def Let_def println_def)

lemma kirimDataKeServer_dashboard:
  "dashboard_of (kirimDataKeServer fmt s) = dashboard_of s"
  by (simp add: dashboard_of_def kirimDataKeServer_readings)

lemma kirimDataKeServer_serial:
  "\<exists>rest. serial_log (kirimDataKeServer fmt s) = serial_log s @ rest"
  by (simp add: kirimDataKeServer_def Let_def println_def)

lemma dashboard_of_timestamp [simp]:
  "dashboard_of (s\<lparr>lastDataSend := t\<rparr>) = dashboard_of s"
  by (simp add: dashboard_of_def)

lemma baca_sensor_disconnected:
  assumes "temp_input s (temp_reads s) = DEVICE_DISCONNECTED_C"
  shows "nilaiSuhu (baca_sensor s) = Fin 0"
    and "serial_log (baca_sensor s) =
           serial_log s @ [Println (utf8_warning @ '' Sensor DS18B20 tidak terdeteksi!''),
                           dashboard_of (baca_sensor s)]"
proof -
  have t: "temp_input (baca_turbidity (baca_ph s)) (temp_reads (baca_turbidity (baca_ph s)))
           = DEVICE_DISCONNECTED_C"
    using assms by simp
  show "nilaiSuhu (baca_sensor s) = Fin 0"
    using baca_suhu_disconnected(1)[OF t] by (simp add: baca_sensor_def)
  show "serial_log (baca_sensor s) =
           serial_log s @ [Println (utf8_warning @ '' Sensor DS18B20 tidak terdeteksi!''),
                           dashboard_of (baca_sensor s)]"
    using baca_suhu_disconnected(2)[OF t] by (simp add: baca_sensor_def)
qed

text \<open>
  C7.  Whenever the probe returns the sentinel \<^verbatim>\<open>DEVICE_DISCONNECTED_C\<close> in a pass of
  \<^verbatim>\<open>loop\<close> whose sampling is due, the stored temperature after the pass is 0.0, the
  warning is written to the console, and processing continues: the table is displayed
  after the warning, with the substituted temperature, followed by whatever the reporter
  prints.
\<close>

theorem probe_disconnected_default:
  assumes "temp_input s (temp_reads s) = DEVICE_DISCONNECTED_C"
    and "SENSOR_READ_INTERVAL \<le> currentMillis - lastSensorRead s"
  shows "nilaiSuhu (loop fmt currentMillis s) = Fin 0
       \<and> (\<exists>rest. serial_log (loop fmt currentMillis s) =
             serial_log s @ [Println (utf8_warning @ '' Sensor DS18B20 tidak terdeteksi!''),
                             dashboard_of (loop fmt currentMillis s)] @ rest)"
proof -
  define s0 where "s0 = s\<lparr>lastSensorRead := currentMillis\<rparr>"
  define s1 where "s1 = baca_sensor s0"
  have t: "temp_input s0 (temp_reads s0) = DEVICE_DISCONNECTED_C"
    using assms(1) by (simp add: s0_def)
  have n1: "nilaiSuhu s1 = Fin 0" unfolding s1_def using t by (rule baca_sensor_disconnected)
  have l1: "serial_log s1 =
      serial_log s @ [Println (utf8_warning @ '' Sensor DS18B20 tidak terdeteksi!''),
                      dashboard_of s1]"
    using baca_sensor_disconnected(2)[OF t] by (simp add: s1_def s0_def)
  show ?thesis
  proof (cases "DATA_SEND_INTERVAL \<le> currentMillis - lastDataSend s1")
    case False
    then have "loop fmt currentMillis s = s1"
      using assms(2) by (simp add: loop_def Let_def s1_def s0_def)
    then show ?thesis using n1 l1 by simp
  next
    case True
    define s2 where "s2 = s1\<lparr>lastDataSend := currentMillis\<rparr>"
    have lp: "loop fmt currentMillis s = kirimDataKeServer fmt s2"
      using assms(2) True by (simp add: loop_def Let_def s1_def s0_def s2_def)
    obtain rest where r: "serial_log (kirimDataKeServer fmt s2) = serial_log s2 @ rest"
      using kirimDataKeServer_serial by blast
    have d: "dashboard_of (kirimDataKeServer fmt s2) = dashboard_of s1"
      by (simp add: kirimDataKeServer_dashboard s2_def)
    have "nilaiSuhu (kirimDataKeServer fmt s2) = Fin 0"
      using n1 by (simp add: kirimDataKeServer_readings s2_def)
    moreover have "serial_log (kirimDataKeServer fmt s2) =
        serial_log s @ [Println (utf8_warning @ '' Sensor DS18B20 tidak terdeteksi!''),
                        dashboard_of (kirimDataKeServer fmt s2)] @ rest"
      using r l1 by (simp add: d[unfolded s2_def] s2_def)
    ultimately show ?thesis unfolding lp by blast
  qed
qed

theorem probe_disconnected_default_witness:
  "temp_input (initial_state (\<lambda>pin k. 2048) (\<lambda>k. DEVICE_DISCONNECTED_C) WL_DISCONNECTED
                 (\<lambda>k. (200, [])))
     (temp_reads (initial_state (\<lambda>pin k. 2048) (\<lambda>k. DEVICE_DISCONNECTED_C) WL_DISCONNECTED
                 (\<lambda>k. (200, [])))) = DEVICE_DISCONNECTED_C
   \<and> SENSOR_READ_INTERVAL \<le> 1000 - lastSensorRead
        (initial_state (\<lambda>pin k. 2048) (\<lambda>k. DEVICE_DISCONNECTED_C) WL_DISCONNECTED
           (\<lambda>k. (200, [])))
   \<and> nilaiSuhu (loop (\<lambda>x n. ''0'') 1000
        (initial_state (\<lambda>pin k. 2048) (\<lambda>k. DEVICE_DISCONNECTED_C) WL_DISCONNECTED
           (\<lambda>k. (200, [])))) = Fin 0"
proof -
  let ?s = "initial_state (\<lambda>pin k. 2048) (\<lambda>k. DEVICE_DISCONNECTED_C) WL_DISCONNECTED
              (\<lambda>k. (200, []))"
  have h1: "temp_input ?s (temp_reads ?s) = DEVICE_DISCONNECTED_C"
    by (simp add: initial_state_def)
  have h2: "SENSOR_READ_INTERVAL \<le> 1000 - lastSensorRead ?s"
    by (simp add: initial_state_def SENSOR_READ_INTERVAL_def)
  from probe_disconnected_default [OF h1 h2, of "\<lambda>x n. ''0''"] h1 h2 show ?thesis by blast
qed

text \<open>
  C10.  \<^verbatim>\<open>kirimDataKeServer\<close> never modifies a latest-reading variable (\<^verbatim>\<open>rawPH\<close>,
  \<^verbatim>\<open>rawTurbidity\<close>, \<^verbatim>\<open>teganganPH\<close>, \<^verbatim>\<open>teganganTurbidity\<close>, \<^verbatim>\<open>nilaiPH\<close>,
  \<^verbatim>\<open>nilaiTurbidity\<close>, \<^verbatim>\<open>nilaiSuhu\<close>): whatever the WiFi status and the answer of
  the server, the readings after the send are those before it.  So in every pass of
  \<^verbatim>\<open>loop\<close> the readings at the end are those the sampling part left, whether or not
  the send tick ran.
\<close>

theorem kirimDataKeServer_frame:
  "readings (kirimDataKeServer fmt s) = readings s
   \<and> readings (loop fmt currentMillis s) =
       readings (if SENSOR_READ_INTERVAL \<le> currentMillis - lastSensorRead s
                 then baca_sensor (s\<lparr>lastSensorRead := currentMillis\<rparr>)
                 else s)"
proof -
  have k: "\<And>s. readings (kirimDataKeServer fmt s) = readings s"
    by (simp add: readings_def kirimDataKeServer_readings)
  have t: "\<And>s t. readings (s\<lparr>lastDataSend := t\<rparr>) = readings s"
    by (simp add: readings_def)
  show ?thesis
    by (simp add: loop_def Let_def k t)
qed

section \<open>The outbound request\<close>

lemma split_at_no_separator: "c \<notin> set a \<Longrightarrow> split_at c a = [a]"
  by (induction a) auto

lemma split_at_append:
  "c \<notin> set a \<Longrightarrow> split_at c (a @ c # rest) = a # split_at c rest"
  by (induction a) auto

lemma takeWhile_separator:
  "c \<notin> set k \<Longrightarrow> takeWhile (\<lambda>x. x \<noteq> c) (k @ c # v) = k"
  by (induction k) auto

lemma dropWhile_separator:
  "c \<notin> set k \<Longrightarrow> dropWhile (\<lambda>x. x \<noteq> c) (k @ c # v) = c # v"
  by (induction k) auto

lemma key_value_append:
  "CHR ''='' \<notin> set k \<Longrightarrow> key_value (k @ CHR ''='' # v) = (k, v)"
  by (simp add: key_value_def takeWhile_separator dropWhile_separator)

lemma query_of_url:
  "CHR ''?'' \<notin> set a \<Longrightarrow> drop 1 (dropWhile (\<lambda>c. c \<noteq> CHR ''?'') (a @ CHR ''?'' # q)) = q"
  by (simp add: dropWhile_separator)

text \<open>A query of four pairs whose values hold no separator reads back as those pairs.\<close>

lemma query_pairs_four:
  assumes a: "CHR ''?'' \<notin> set a"
    and k: "CHR ''='' \<notin> set k1" "CHR ''='' \<notin> set k2" "CHR ''='' \<notin> set k3" "CHR ''='' \<notin> set k4"
      "CHR ''&'' \<notin> set k1" "CHR ''&'' \<notin> set k2" "CHR ''&'' \<notin> set k3" "CHR ''&'' \<notin> set k4"
    and v: "CHR ''&'' \<notin> set v1" "CHR ''&'' \<notin> set v2" "CHR ''&'' \<notin> set v3" "CHR ''&'' \<notin> set v4"
  shows "query_pairs (a @ CHR ''?'' # k1 @ CHR ''='' # v1 @ CHR ''&'' # k2 @ CHR ''='' # v2
                        @ CHR ''&'' # k3 @ CHR ''='' # v3 @ CHR ''&'' # k4 @ CHR ''='' # v4)
         = [(k1, v1), (k2, v2), (k3, v3), (k4, v4)]"
proof -
  let ?q = "k1 @ CHR ''='' # v1 @ CHR ''&'' # k2 @ CHR ''='' # v2
            @ CHR ''&'' # k3 @ CHR ''='' # v3 @ CHR ''&'' # k4 @ CHR ''='' # v4"
  have q: "drop 1 (dropWhile (\<lambda>c. c \<noteq> CHR ''?'') (a @ CHR ''?'' # ?q)) = ?q"
    using a by (rule query_of_url)
  have s4: "split_at (CHR ''&'') (k4 @ CHR ''='' # v4) = [k4 @ CHR ''='' # v4]"
    using k v by (intro split_at_no_separator) simp
  have s3: "split_at (CHR ''&'') (k3 @ CHR ''='' # v3 @ CHR ''&'' # k4 @ CHR ''='' # v4)
            = [k3 @ CHR ''='' # v3, k4 @ CHR ''='' # v4]"
    using split_at_append[of "CHR ''&''" "k3 @ CHR ''='' # v3" "k4 @ CHR ''='' # v4"] k v
    by (simp add: s4)
  have s2: "split_at (CHR ''&'') (k2 @ CHR ''='' # v2 @ CHR ''&'' #
              k3 @ CHR ''='' # v3 @ CHR ''&'' # k4 @ CHR ''='' # v4)
            = [k2 @ CHR ''='' # v2, k3 @ CHR ''='' # v3, k4 @ CHR ''='' # v4]"
    using split_at_append[of "CHR ''&''" "k2 @ CHR ''='' # v2"
        "k3 @ CHR ''='' # v3 @ CHR ''&'' # k4 @ CHR ''='' # v4"] k v
    by (simp add: s3)
  have "split_at (CHR ''&'') ?q =
      [k1 @ CHR ''='' # v1, k2 @ CHR ''='' # v2, k3 @ CHR ''='' # v3, k4 @ CHR ''='' # v4]"
    using split_at_append[of "CHR ''&''" "k1 @ CHR ''='' # v1"
        "k2 @ CHR ''='' # v2 @ CHR ''&'' # k3 @ CHR ''='' # v3 @ CHR ''&'' # k4 @ CHR ''='' # v4"]
      k v
    by (simp add: s2)
  then show ?thesis
    unfolding query_pairs_def q using k by (simp add: key_value_append)
qed

lemma kirimDataKeServer_http_log:
  "http_log (kirimDataKeServer fmt s) =
     (if wifi_status s = WL_CONNECTED
      then http_log s @
           [HTTP_GET (HOST_NAME @ PATH_NAME @ ''?kualitas_air='' @ fmt (nilaiPH s) 2
                      @ ''&tahan='' @ fmt (nilaiTurbidity s) 1
                      @ ''&udara='' @ fmt (nilaiSuhu s) 2
                      @ ''&daya_listrik='' @ fmt (Fin 100) 2)]
      else http_log s)"
  by (simp add: kirimDataKeServer_def Let_def println_def)

lemma sketch_url_pairs:
  assumes "CHR ''&'' \<notin> set v1" "CHR ''&'' \<notin> set v2" "CHR ''&'' \<notin> set v3" "CHR ''&'' \<notin> set v4"
  shows "query_pairs (HOST_NAME @ PATH_NAME @ ''?kualitas_air='' @ v1 @ ''&tahan='' @ v2
                      @ ''&udara='' @ v3 @ ''&daya_listrik='' @ v4)
         = [(''kualitas_air'', v1), (''tahan'', v2), (''udara'', v3), (''daya_listrik'', v4)]"
  using query_pairs_four[of "HOST_NAME @ PATH_NAME" "''kualitas_air''" "''tahan''" "''udara''"
      "''daya_listrik''" v1 v2 v3 v4] assms
  by (simp add: HOST_NAME_def PATH_NAME_def)

text \<open>
  C8.  In every send tick in which the WiFi is connected, \<^verbatim>\<open>kirimDataKeServer\<close> issues
  exactly one request, a GET to the fixed endpoint, whose query string encodes exactly four
  key-value pairs: the latest acidity, turbidity and temperature readings and the constant
  power level 100.0 (the values hold no ampersand, as the number formatting of the Arduino
  core guarantees).  With no connection it issues no request.
\<close>

theorem kirimDataKeServer_request:
  assumes "\<forall>x n. CHR ''&'' \<notin> set (fmt x n)"
  shows "(wifi_status s = WL_CONNECTED \<longrightarrow>
            (\<exists>url. http_log (kirimDataKeServer fmt s) = http_log s @ [HTTP_GET url]
               \<and> url = HOST_NAME @ PATH_NAME @ ''?kualitas_air='' @ fmt (nilaiPH s) 2
                       @ ''&tahan='' @ fmt (nilaiTurbidity s) 1
                       @ ''&udara='' @ fmt (nilaiSuhu s) 2
                       @ ''&daya_listrik='' @ fmt (Fin 100) 2
               \<and> query_pairs url =
                    [(''kualitas_air'', fmt (nilaiPH s) 2), (''tahan'', fmt (nilaiTurbidity s) 1),
                     (''udara'', fmt (nilaiSuhu s) 2), (''daya_listrik'', fmt (Fin 100) 2)]))
       \<and> (wifi_status s \<noteq> WL_CONNECTED \<longrightarrow> http_log (kirimDataKeServer fmt s) = http_log s)"
proof -
  have "query_pairs (HOST_NAME @ PATH_NAME @ ''?kualitas_air='' @ fmt (nilaiPH s) 2
                       @ ''&tahan='' @ fmt (nilaiTurbidity s) 1
                       @ ''&udara='' @ fmt (nilaiSuhu s) 2
                       @ ''&daya_listrik='' @ fmt (Fin 100) 2)
        = [(''kualitas_air'', fmt (nilaiPH s) 2), (''tahan'', fmt (nilaiTurbidity s) 1),
           (''udara'', fmt (nilaiSuhu s) 2), (''daya_listrik'', fmt (Fin 100) 2)]"
    using assms by (intro sketch_url_pairs) simp_all
  then show ?thesis by (simp add: kirimDataKeServer_http_log)
qed

theorem kirimDataKeServer_request_witness:
  "http_log (kirimDataKeServer (\<lambda>x n. ''7.00'')
      (initial_state (\<lambda>pin k. 2048) (\<lambda>k. Fin 25) WL_CONNECTED (\<lambda>k. (200, ''OK''))))
   = [HTTP_GET ''http://yoga.underwaterdrone.my.id//api.php?kualitas_air=7.00&tahan=7.00&udara=7.00&daya_listrik=7.00'']"
proof -
  have h: "\<forall>x n. CHR ''&'' \<notin> set ((\<lambda>(x::fp) (n::nat). ''7.00'') x n)" by simp
  have c: "wifi_status (initial_state (\<lambda>pin k. 2048) (\<lambda>k. Fin 25) WL_CONNECTED
             (\<lambda>k. (200, ''OK''))) = WL_CONNECTED"
    by (simp add: initial_state_def)
  from kirimDataKeServer_request [OF h,
      of "initial_state (\<lambda>pin k. 2048) (\<lambda>k. Fin 25) WL_CONNECTED (\<lambda>k. (200, ''OK''))"] c
  show ?thesis by (auto simp: initial_state_def HOST_NAME_def PATH_NAME_def)
qed

end
